theory Spec2Isabelle
  imports Main "HOL-Library.Word"
begin

unbundle bit_operations_syntax

section \<open>The x86-64 back end of the VU recompiler (vu\_jit64.cpp)\<close>

subsection \<open>Host registers, emitter calls, cache calls\<close>

text \<open>
  Modelled from the spec: \<^verbatim>\<open>enum REG_64\<close> is declared in emitter64.hpp, which is not
  part of the sources at hand. The code casts between \<^verbatim>\<open>int\<close> and \<^verbatim>\<open>REG_64\<close> freely
  (\<^verbatim>\<open>(REG_64)i\<close>, \<^verbatim>\<open>int_regs[REG_64::RAX]\<close>), so a host register is its number; the
  numbers are those of the x86-64 register encoding. The spec calls RAX and RSP "the host
  accumulator-equivalent and stack-pointer registers".
\<close>

type_synonym REG_64 = nat

definition RAX :: REG_64 where "RAX = 0"
definition RCX :: REG_64 where "RCX = 1"
definition RDX :: REG_64 where "RDX = 2"
definition RBX :: REG_64 where "RBX = 3"
definition RSP :: REG_64 where "RSP = 4"
definition RBP :: REG_64 where "RBP = 5"
definition RSI :: REG_64 where "RSI = 6"
definition RDI :: REG_64 where "RDI = 7"
definition R8 :: REG_64 where "R8 = 8"
definition R9 :: REG_64 where "R9 = 9"

text \<open>
  One constructor per emitter method the translation unit calls, with the arguments in
  the order of the call. The emitter itself (emitter64.cpp) is not part of the sources.
\<close>

datatype x64 =
    PUSH REG_64
  | POP REG_64
  | RET
  | CALL "64 word"
  | MOV64_MR REG_64 REG_64
  | MOV16_REG_IMM "16 word" REG_64
  | MOV16_REG REG_64 REG_64
  | ADD16_REG_IMM "16 word" REG_64
  | SHL32_REG_IMM nat REG_64
  | MOV32_MI_MEM "32 word" REG_64
  | MOV32_TO_MEM REG_64 REG_64
  | MOV64_OI "64 word" REG_64
  | load_addr "64 word" REG_64
  | MOV64_TO_MEM REG_64 REG_64
  | MOV64_FROM_MEM REG_64 REG_64
  | MOVAPS_TO_MEM REG_64 REG_64
  | MOVAPS_FROM_MEM REG_64 REG_64

text \<open>
  What the translation unit does to its collaborators, in the order it does it: a call of
  the emitter, or a call of the code cache. The \<^verbatim>\<open>printf\<close> diagnostics are left out.
\<close>

datatype event =
    Emit x64
  | alloc_block "32 word"
  | set_current_block_rx
  | print_current_block
  | print_literal_pool
  | flush_all_blocks

subsection \<open>The state of the recompiler\<close>

text \<open>
  One entry of \<^verbatim>\<open>int_regs[16]\<close> and \<^verbatim>\<open>xmm_regs[16]\<close>. The counter \<^verbatim>\<open>age\<close> is a C++
  \<^verbatim>\<open>int\<close>, which \<^verbatim>\<open>age++\<close> overflows at 2147483647. Here it is an unbounded integer: the
  model is the code as long as no age that is incremented is 2147483647, and a statement
  that depends on the ages says so in its hypotheses.
\<close>

record AllocReg =
  vu_reg :: int
  used :: bool
  locked :: bool
  age :: int

record jit =
  int_regs :: "AllocReg list"
  xmm_regs :: "AllocReg list"
  abi_int_count :: nat
  abi_xmm_count :: nat
  trace :: "event list"

text \<open>
  The functions take \<^verbatim>\<open>VectorUnit& vu\<close> only for its program counter (\<^verbatim>\<open>vu.get_PC()\<close>)
  and for addresses inside it: \<^verbatim>\<open>(uint64_t)&vu.PC\<close>, \<^verbatim>\<open>(uint64_t)&vu.int_gpr[i]\<close> and
  \<^verbatim>\<open>(uint64_t)&vu.gpr[i]\<close>. The class is declared in vu.hpp, which is not part of the
  sources, so these addresses are parameters.
\<close>

record VectorUnit =
  get_PC :: "32 word"
  PC_addr :: "64 word"
  int_gpr_addr :: "int \<Rightarrow> 64 word"
  gpr_addr :: "int \<Rightarrow> 64 word"

datatype error =
    Alloc_Int_error int
  | Alloc_SSE_error int
  | Unknown_IR_instruction
  | ABI_integer_arguments_exceeded

definition emit :: "x64 \<Rightarrow> jit \<Rightarrow> jit" where
  "emit x s = s\<lparr>trace := trace s @ [Emit x]\<rparr>"

definition cache_call :: "event \<Rightarrow> jit \<Rightarrow> jit" where
  "cache_call e s = s\<lparr>trace := trace s @ [e]\<rparr>"

subsection \<open>reset\<close>

definition reset_reg :: "AllocReg \<Rightarrow> AllocReg" where
  "reset_reg r = r\<lparr>used := False, locked := False, age := 0\<rparr>"

text \<open>\<^verbatim>\<open>reset\<close> leaves \<^verbatim>\<open>vu_reg\<close> of every entry as it was.\<close>

definition reset :: "jit \<Rightarrow> jit" where
  "reset s =
     (let xs = map (\<lambda>i. reset_reg (xmm_regs s ! i)) [0..<16];
          is0 = map (\<lambda>i. reset_reg (int_regs s ! i)) [0..<16];
          is1 = is0[RAX := (is0 ! RAX)\<lparr>locked := True\<rparr>];
          is2 = is1[RSP := (is1 ! RSP)\<lparr>locked := True\<rparr>]
      in cache_call flush_all_blocks
           (s\<lparr>int_regs := is2, xmm_regs := xs, abi_int_count := 0, abi_xmm_count := 0\<rparr>))"

subsection \<open>The register allocator\<close>

text \<open>The first loop of both allocators: the first used entry that holds the guest register.\<close>

fun find_reg :: "AllocReg list \<Rightarrow> int \<Rightarrow> nat list \<Rightarrow> nat option" where
  "find_reg regs v [] = None"
| "find_reg regs v (i # js) =
     (if used (regs ! i) \<and> vu_reg (regs ! i) = v then Some i else find_reg regs v js)"

text \<open>
  The second loop: every used entry grows one older (\<^verbatim>\<open>age++\<close>, without the overflow of
  the C++ \<^verbatim>\<open>int\<close>: see \<open>AllocReg\<close>).
\<close>

definition grow_older :: "AllocReg list \<Rightarrow> AllocReg list" where
  "grow_older regs = map (\<lambda>r. if used r then r\<lparr>age := age r + 1\<rparr> else r) regs"

text \<open>
  The third loop of \<^verbatim>\<open>alloc_int_reg\<close>, over the indices still to visit, with the local
  variables \<^verbatim>\<open>reg\<close> and \<^verbatim>\<open>age\<close>; \<^verbatim>\<open>break\<close> returns at once.
\<close>

fun pick_int :: "AllocReg list \<Rightarrow> nat list \<Rightarrow> nat \<Rightarrow> int \<Rightarrow> nat" where
  "pick_int regs [] reg a = reg"
| "pick_int regs (i # js) reg a =
     (if locked (regs ! i) then pick_int regs js reg a
      else if \<not> used (regs ! i) then i
      else if age (regs ! i) > a then pick_int regs js i (age (regs ! i))
      else pick_int regs js reg a)"

text \<open>The third loop of \<^verbatim>\<open>alloc_sse_reg\<close>: the same without the test of \<^verbatim>\<open>locked\<close>.\<close>

fun pick_sse :: "AllocReg list \<Rightarrow> nat list \<Rightarrow> nat \<Rightarrow> int \<Rightarrow> nat" where
  "pick_sse regs [] xmm a = xmm"
| "pick_sse regs (i # js) xmm a =
     (if \<not> used (regs ! i) then i
      else if age (regs ! i) > a then pick_sse regs js i (age (regs ! i))
      else pick_sse regs js xmm a)"

definition bind_reg :: "AllocReg list \<Rightarrow> nat \<Rightarrow> int \<Rightarrow> AllocReg list" where
  "bind_reg regs reg v = regs[reg := (regs ! reg)\<lparr>vu_reg := v, used := True, age := 0\<rparr>]"

definition alloc_int_reg :: "VectorUnit \<Rightarrow> jit \<Rightarrow> int \<Rightarrow> bool \<Rightarrow> error + (REG_64 \<times> jit)" where
  "alloc_int_reg vu s vi_reg load_state =
     (if vi_reg \<ge> 16 then Inl (Alloc_Int_error vi_reg)
      else case find_reg (int_regs s) vi_reg [0..<16] of
        Some i \<Rightarrow> Inr (i, s)
      | None \<Rightarrow>
          (let s1 = s\<lparr>int_regs := grow_older (int_regs s)\<rparr>;
               reg = pick_int (int_regs s1) [0..<16] 0 0;
               s2 = (if used (int_regs s1 ! reg)
                     then emit (MOV64_TO_MEM reg RAX)
                            (emit (load_addr (int_gpr_addr vu (vu_reg (int_regs s1 ! reg))) RAX) s1)
                     else s1);
               s3 = (if load_state
                     then emit (MOV64_FROM_MEM RAX reg)
                            (emit (load_addr (int_gpr_addr vu vi_reg) RAX) s2)
                     else s2)
           in Inr (reg, s3\<lparr>int_regs := bind_reg (int_regs s3) reg vi_reg\<rparr>)))"

definition alloc_sse_reg :: "VectorUnit \<Rightarrow> jit \<Rightarrow> int \<Rightarrow> bool \<Rightarrow> error + (REG_64 \<times> jit)" where
  "alloc_sse_reg vu s vf_reg load_state =
     (if vf_reg \<ge> 32 then Inl (Alloc_SSE_error vf_reg)
      else case find_reg (xmm_regs s) vf_reg [0..<16] of
        Some i \<Rightarrow> Inr (i, s)
      | None \<Rightarrow>
          (let s1 = s\<lparr>xmm_regs := grow_older (xmm_regs s)\<rparr>;
               xmm = pick_sse (xmm_regs s1) [0..<16] 0 0;
               s2 = (if used (xmm_regs s1 ! xmm)
                     then emit (MOVAPS_TO_MEM xmm RAX)
                            (emit (load_addr (gpr_addr vu (vu_reg (xmm_regs s1 ! xmm))) RAX) s1)
                     else s1);
               s3 = (if load_state
                     then emit (MOVAPS_FROM_MEM RAX xmm)
                            (emit (load_addr (gpr_addr vu vf_reg) RAX) s2)
                     else s2)
           in Inr (xmm, s3\<lparr>xmm_regs := bind_reg (xmm_regs s3) xmm vf_reg\<rparr>)))"

subsection \<open>flush\_regs\<close>

definition flush_xmm :: "VectorUnit \<Rightarrow> nat \<Rightarrow> jit \<Rightarrow> jit" where
  "flush_xmm vu i s =
     (let vf_reg = vu_reg (xmm_regs s ! i)
      in if used (xmm_regs s ! i) \<and> vf_reg \<noteq> 0
         then emit (MOVAPS_TO_MEM i RAX)
                (emit (load_addr (gpr_addr vu vf_reg) RAX)
                   (s\<lparr>xmm_regs := (xmm_regs s)[i := (xmm_regs s ! i)\<lparr>used := False\<rparr>]\<rparr>))
         else s)"

definition flush_int :: "VectorUnit \<Rightarrow> nat \<Rightarrow> jit \<Rightarrow> jit" where
  "flush_int vu i s =
     (let vi_reg = vu_reg (int_regs s ! i)
      in if used (int_regs s ! i) \<and> vi_reg \<noteq> 0
         then emit (MOV64_TO_MEM i RAX)
                (emit (load_addr (int_gpr_addr vu vi_reg) RAX)
                   (s\<lparr>int_regs := (int_regs s)[i := (int_regs s ! i)\<lparr>used := False\<rparr>]\<rparr>))
         else s)"

text \<open>The body of the loop of \<^verbatim>\<open>flush_regs\<close>: the vector entry first, then the integer one.\<close>

definition flush_step :: "VectorUnit \<Rightarrow> nat \<Rightarrow> jit \<Rightarrow> jit" where
  "flush_step vu i s = flush_int vu i (flush_xmm vu i s)"

definition flush_regs :: "VectorUnit \<Rightarrow> jit \<Rightarrow> jit" where
  "flush_regs vu s = fold (flush_step vu) [0..<16] s"

subsection \<open>The IR\<close>

text \<open>
  Modelled from the spec: \<^verbatim>\<open>IR::Opcode\<close>, \<^verbatim>\<open>IR::Instruction\<close> and \<^verbatim>\<open>IR::Block\<close> are
  declared in headers that are not part of the sources. The opcodes are the seven that the
  \<^verbatim>\<open>switch\<close> of \<^verbatim>\<open>recompile_block\<close> names, and \<open>Other_opcode\<close> stands for every other
  enumerator (the \<^verbatim>\<open>default\<close> case). An instruction is its opcode and the operand fields
  the getters read ("destination, source(s), immediate, jump target, return address"); a
  block is "an ordered, destructively-drainable sequence of IR Instructions" and "a
  precomputed cycle cost", \<^verbatim>\<open>get_next_instr\<close> taking the instructions from the front.
\<close>

datatype Opcode =
    LoadConst
  | MoveIntReg
  | Jump
  | JumpAndLink
  | VMulVectorByScalar
  | JumpIndirect
  | AddUnsignedImm
  | Other_opcode nat

record Instruction =
  op :: Opcode
  get_dest :: int
  get_source :: int
  get_source2 :: int
  get_jump_dest :: "32 word"
  get_return_addr :: "64 word"

record Block =
  instructions :: "Instruction list"
  get_cycle_count :: int

text \<open>
  Modelled from the spec: the default of the parameter \<^verbatim>\<open>load_state\<close> is in the class
  declaration (vu\_jit64.hpp, not part of the sources). The spec has the source operand of
  BranchIndirect and of AddImmediateUnsigned acquired "with load", and these are the calls
  that leave the argument out.
\<close>

definition load_state_default :: bool where
  "load_state_default = True"

subsection \<open>The handlers of the instructions\<close>

definition load_const :: "VectorUnit \<Rightarrow> jit \<Rightarrow> Instruction \<Rightarrow> error + jit" where
  "load_const vu s instr =
     (case alloc_int_reg vu s (get_dest instr) False of
        Inl e \<Rightarrow> Inl e
      | Inr (dest, s1) \<Rightarrow> Inr (emit (MOV16_REG_IMM (word_of_int (get_source instr)) dest) s1))"

text \<open>
  The third argument of the second call is \<^verbatim>\<open>dest\<close>, a \<^verbatim>\<open>REG_64\<close>, where a \<^verbatim>\<open>bool\<close> is
  expected: the state is loaded unless \<^verbatim>\<open>dest\<close> is register 0.
\<close>

definition move_int_reg :: "VectorUnit \<Rightarrow> jit \<Rightarrow> Instruction \<Rightarrow> error + jit" where
  "move_int_reg vu s instr =
     (case alloc_int_reg vu s (get_dest instr) False of
        Inl e \<Rightarrow> Inl e
      | Inr (dest, s1) \<Rightarrow>
          (case alloc_int_reg vu s1 (get_source instr) (dest \<noteq> 0) of
             Inl e \<Rightarrow> Inl e
           | Inr (source, s2) \<Rightarrow> Inr (emit (MOV16_REG source dest) s2)))"

definition jump :: "VectorUnit \<Rightarrow> jit \<Rightarrow> Instruction \<Rightarrow> error + jit" where
  "jump vu s instr =
     Inr (emit (MOV32_MI_MEM (get_jump_dest instr) RAX) (emit (load_addr (PC_addr vu) RAX) s))"

definition jump_and_link :: "VectorUnit \<Rightarrow> jit \<Rightarrow> Instruction \<Rightarrow> error + jit" where
  "jump_and_link vu s instr =
     (let s1 = emit (MOV32_MI_MEM (get_jump_dest instr) RAX) (emit (load_addr (PC_addr vu) RAX) s)
      in case alloc_int_reg vu s1 (get_dest instr) load_state_default of
           Inl e \<Rightarrow> Inl e
         | Inr (link, s2) \<Rightarrow> Inr (emit (MOV64_OI (get_return_addr instr) link) s2))"

definition jump_indirect :: "VectorUnit \<Rightarrow> jit \<Rightarrow> Instruction \<Rightarrow> error + jit" where
  "jump_indirect vu s instr =
     (case alloc_int_reg vu s (get_source instr) load_state_default of
        Inl e \<Rightarrow> Inl e
      | Inr (return_reg, s1) \<Rightarrow>
          Inr (emit (MOV32_TO_MEM return_reg RAX)
                (emit (load_addr (PC_addr vu) RAX)
                   (emit (SHL32_REG_IMM 3 return_reg) s1))))"

definition add_unsigned_imm :: "VectorUnit \<Rightarrow> jit \<Rightarrow> Instruction \<Rightarrow> error + jit" where
  "add_unsigned_imm vu s instr =
     (case alloc_int_reg vu s (get_dest instr) False of
        Inl e \<Rightarrow> Inl e
      | Inr (dest, s1) \<Rightarrow>
          (case alloc_int_reg vu s1 (get_source instr) load_state_default of
             Inl e \<Rightarrow> Inl e
           | Inr (source, s2) \<Rightarrow>
               (let imm = (word_of_int (get_source2 instr) :: 16 word)
                in Inr (emit (ADD16_REG_IMM imm dest) (emit (MOV16_REG source dest) s2)))))"

text \<open>This handler exists, but its only call (in \<^verbatim>\<open>recompile_block\<close>) is commented out.\<close>

definition mul_vector_by_scalar :: "VectorUnit \<Rightarrow> jit \<Rightarrow> Instruction \<Rightarrow> error + jit" where
  "mul_vector_by_scalar vu s instr =
     (case alloc_sse_reg vu s (get_dest instr) False of
        Inl e \<Rightarrow> Inl e
      | Inr (dest, s1) \<Rightarrow> Inr s1)"

subsection \<open>recompile\_block\<close>

text \<open>The \<^verbatim>\<open>switch\<close> on \<^verbatim>\<open>instr.op\<close>.\<close>

definition dispatch :: "VectorUnit \<Rightarrow> jit \<Rightarrow> Instruction \<Rightarrow> error + jit" where
  "dispatch vu s instr =
     (case op instr of
        LoadConst \<Rightarrow> load_const vu s instr
      | MoveIntReg \<Rightarrow> move_int_reg vu s instr
      | Jump \<Rightarrow> jump vu s instr
      | JumpAndLink \<Rightarrow> jump_and_link vu s instr
      | VMulVectorByScalar \<Rightarrow> Inr s
      | JumpIndirect \<Rightarrow> jump_indirect vu s instr
      | AddUnsignedImm \<Rightarrow> add_unsigned_imm vu s instr
      | Other_opcode n \<Rightarrow> Inl Unknown_IR_instruction)"

text \<open>
  The \<^verbatim>\<open>while\<close> loop: it takes the next instruction while the block has one, and a fatal
  error ends the compilation.
\<close>

fun drain :: "VectorUnit \<Rightarrow> jit \<Rightarrow> Instruction list \<Rightarrow> error + jit" where
  "drain vu s [] = Inr s"
| "drain vu s (instr # rest) =
     (case dispatch vu s instr of
        Inl e \<Rightarrow> Inl e
      | Inr s1 \<Rightarrow> drain vu s1 rest)"

definition prologue :: "VectorUnit \<Rightarrow> jit \<Rightarrow> jit" where
  "prologue vu s =
     emit (MOV64_MR RSP RBP) (emit (PUSH RBP) (cache_call (alloc_block (get_PC vu)) s))"

definition epilogue :: "Block \<Rightarrow> jit \<Rightarrow> jit" where
  "epilogue block s =
     cache_call print_literal_pool
       (cache_call print_current_block
          (cache_call set_current_block_rx
             (emit RET
                (emit (POP RBP)
                   (emit (MOV16_REG_IMM (word_of_int (get_cycle_count block)) RAX) s)))))"

text \<open>The block is passed by reference and comes back drained.\<close>

definition recompile_block :: "VectorUnit \<Rightarrow> jit \<Rightarrow> Block \<Rightarrow> error + (jit \<times> Block)" where
  "recompile_block vu s block =
     (case drain vu (prologue vu s) (instructions block) of
        Inl e \<Rightarrow> Inl e
      | Inr s1 \<Rightarrow> Inr (epilogue block (flush_regs vu s1), block\<lparr>instructions := []\<rparr>))"

subsection \<open>The ABI bridge\<close>

definition regs :: "REG_64 list" where
  "regs = [RDI, RSI, RDX, RCX, R8, R9]"

definition prepare_abi :: "VectorUnit \<Rightarrow> jit \<Rightarrow> 64 word \<Rightarrow> error + jit" where
  "prepare_abi vu s v =
     (if abi_int_count s \<ge> 6 then Inl ABI_integer_arguments_exceeded
      else
        (let arg = regs ! abi_int_count s;
             s1 = (if used (int_regs s ! arg)
                   then (let vi_reg = vu_reg (int_regs s ! arg);
                             s' = emit (MOV64_TO_MEM arg RAX)
                                    (emit (load_addr (int_gpr_addr vu vi_reg) RAX) s)
                         in s'\<lparr>int_regs := (int_regs s')[arg := (int_regs s' ! arg)\<lparr>used := False, age := 0\<rparr>]\<rparr>)
                   else s);
             s2 = emit (load_addr v (regs ! abi_int_count s1)) s1
         in Inr (s2\<lparr>abi_int_count := abi_int_count s2 + 1\<rparr>)))"

definition call_abi_func :: "jit \<Rightarrow> 64 word \<Rightarrow> jit" where
  "call_abi_func s addr = (emit (CALL addr) s)\<lparr>abi_int_count := 0, abi_xmm_count := 0\<rparr>"

subsection \<open>Sequences of calls\<close>

text \<open>A call of one of the two allocators, and calls one after the other until one is fatal.\<close>

datatype pool = Int_pool | Vec_pool

definition pool_regs :: "pool \<Rightarrow> jit \<Rightarrow> AllocReg list" where
  "pool_regs p s = (case p of Int_pool \<Rightarrow> int_regs s | Vec_pool \<Rightarrow> xmm_regs s)"

definition acquire :: "VectorUnit \<Rightarrow> jit \<Rightarrow> pool \<Rightarrow> int \<Rightarrow> bool \<Rightarrow> error + (REG_64 \<times> jit)" where
  "acquire vu s p g load_state =
     (case p of
        Int_pool \<Rightarrow> alloc_int_reg vu s g load_state
      | Vec_pool \<Rightarrow> alloc_sse_reg vu s g load_state)"

fun acquire_all :: "VectorUnit \<Rightarrow> jit \<Rightarrow> (pool \<times> int \<times> bool) list \<Rightarrow> error + jit" where
  "acquire_all vu s [] = Inr s"
| "acquire_all vu s ((p, g, l) # rest) =
     (case acquire vu s p g l of
        Inl e \<Rightarrow> Inl e
      | Inr (r, s1) \<Rightarrow> acquire_all vu s1 rest)"

text \<open>A call of the ABI bridge, and calls one after the other until one is fatal.\<close>

datatype abi_call = Prepare "64 word" | Call "64 word"

fun abi_run :: "VectorUnit \<Rightarrow> jit \<Rightarrow> abi_call list \<Rightarrow> error + jit" where
  "abi_run vu s [] = Inr s"
| "abi_run vu s (Prepare v # rest) =
     (case prepare_abi vu s v of
        Inl e \<Rightarrow> Inl e
      | Inr s1 \<Rightarrow> abi_run vu s1 rest)"
| "abi_run vu s (Call a # rest) = abi_run vu (call_abi_func s a) rest"

text \<open>The arguments prepared since the last call was issued, counted from \<open>n\<close>.\<close>

fun outstanding :: "nat \<Rightarrow> abi_call list \<Rightarrow> nat" where
  "outstanding n [] = n"
| "outstanding n (Prepare v # rest) = outstanding (Suc n) rest"
| "outstanding n (Call a # rest) = outstanding 0 rest"

subsection \<open>Properties of the state\<close>

definition holds :: "AllocReg list \<Rightarrow> nat \<Rightarrow> int \<Rightarrow> bool" where
  "holds rs i v \<longleftrightarrow> used (rs ! i) \<and> vu_reg (rs ! i) = v"

text \<open>
  What \<^verbatim>\<open>reset\<close> establishes and every function keeps: sixteen entries in each pool, RAX
  and RSP the locked entries, a locked entry never in use, no age below zero.
\<close>

definition alloc_inv :: "jit \<Rightarrow> bool" where
  "alloc_inv s \<longleftrightarrow>
     length (int_regs s) = 16 \<and> length (xmm_regs s) = 16 \<and>
     (\<forall>i<16. locked (int_regs s ! i) = (i = RAX \<or> i = RSP)) \<and>
     (\<forall>i<16. \<not> locked (xmm_regs s ! i)) \<and>
     (\<forall>i<16. locked (int_regs s ! i) \<longrightarrow> \<not> used (int_regs s ! i)) \<and>
     (\<forall>i<16. 0 \<le> age (int_regs s ! i)) \<and>
     (\<forall>i<16. 0 \<le> age (xmm_regs s ! i))"

text \<open>
  The entries in use hold guest registers that exist (sixteen integer registers, thirty-two
  vector registers), and no two entries of a pool hold the same one.
\<close>

definition one_holder :: "AllocReg list \<Rightarrow> int \<Rightarrow> bool" where
  "one_holder rs n \<longleftrightarrow>
     (\<forall>i<16. used (rs ! i) \<longrightarrow> 0 \<le> vu_reg (rs ! i) \<and> vu_reg (rs ! i) < n) \<and>
     (\<forall>i<16. \<forall>j<16. used (rs ! i) \<and> used (rs ! j) \<and> vu_reg (rs ! i) = vu_reg (rs ! j) \<longrightarrow> i = j)"

text \<open>The register that an emitter call spills to memory or fills from memory, if any.\<close>

fun transfers :: "x64 \<Rightarrow> REG_64 option" where
  "transfers (MOV64_TO_MEM r a) = Some r"
| "transfers (MOV64_FROM_MEM a r) = Some r"
| "transfers (MOVAPS_TO_MEM r a) = Some r"
| "transfers (MOVAPS_FROM_MEM a r) = Some r"
| "transfers x = None"

fun code_of :: "event list \<Rightarrow> x64 list" where
  "code_of [] = []"
| "code_of (Emit x # es) = x # code_of es"
| "code_of (e # es) = code_of es"

subsection \<open>Running the emitted code\<close>

text \<open>
  Modelled from the spec: what the emitted instructions do when they run. The encoder is
  not part of the sources, and the spec takes its primitives as "opaque correct
  operations": "load-immediate-address, 16/32/64-bit move variants (register to register,
  register to immediate, register to memory), 16-bit add-immediate, 32-bit
  shift-left-immediate, stack push/pop, call, return, 128-bit aligned vector load/store".
  They are given the meaning of the x86-64 instructions they name: a 16-bit operation
  changes the low 16 bits of its destination register only, a 32-bit operation clears the
  upper half of it, and an access to memory of \<open>n\<close> bytes reads or writes the \<open>n\<close> bytes
  from its address on, the low byte first; the aligned vector load and store fault at an
  address that is not a multiple of 16.

  Memory is an array of bytes with 64-bit addresses, so that a store of 8 bytes at the
  address of a guest register reaches whatever lies in the 7 bytes behind its first one.
  The stack is kept apart from this memory. Helper routines reached by \<open>CALL\<close> are
  outside the model, and \<open>RET\<close> ends the run.
\<close>

record machine =
  hreg :: "REG_64 \<Rightarrow> 64 word"
  hxmm :: "REG_64 \<Rightarrow> 128 word"
  mem :: "64 word \<Rightarrow> 8 word"
  stack :: "64 word list"

definition set_low :: "'a::len word \<Rightarrow> 'b::len word \<Rightarrow> 'b word" where
  "set_low v w = (w AND NOT (mask LENGTH('a))) OR ucast v"

definition set_reg :: "REG_64 \<Rightarrow> 64 word \<Rightarrow> machine \<Rightarrow> machine" where
  "set_reg r v m = m\<lparr>hreg := (hreg m)(r := v)\<rparr>"

text \<open>The \<open>n\<close> bytes from address \<open>a\<close> on as a word, and a word written there, low byte first.\<close>

fun load_bytes :: "(64 word \<Rightarrow> 8 word) \<Rightarrow> 64 word \<Rightarrow> nat \<Rightarrow> 'a::len word" where
  "load_bytes f a 0 = 0"
| "load_bytes f a (Suc n) = ucast (f a) OR push_bit 8 (load_bytes f (a + 1) n)"

fun store_bytes :: "(64 word \<Rightarrow> 8 word) \<Rightarrow> 64 word \<Rightarrow> nat \<Rightarrow> 'a::len word \<Rightarrow> 64 word \<Rightarrow> 8 word" where
  "store_bytes f a 0 v = f"
| "store_bytes f a (Suc n) v = store_bytes (f(a := ucast v)) (a + 1) n (drop_bit 8 v)"

definition write_mem :: "64 word \<Rightarrow> nat \<Rightarrow> 'a::len word \<Rightarrow> machine \<Rightarrow> machine" where
  "write_mem a n v m = m\<lparr>mem := store_bytes (mem m) a n v\<rparr>"

definition aligned16 :: "64 word \<Rightarrow> bool" where
  "aligned16 a \<longleftrightarrow> a AND 15 = 0"

fun step :: "x64 \<Rightarrow> machine \<Rightarrow> machine option" where
  "step (PUSH r) m = Some ((set_reg RSP (hreg m RSP - 8) m)\<lparr>stack := hreg m r # stack m\<rparr>)"
| "step (POP r) m =
     (case stack m of
        [] \<Rightarrow> None
      | v # st \<Rightarrow> Some (set_reg r v (set_reg RSP (hreg m RSP + 8) (m\<lparr>stack := st\<rparr>))))"
| "step RET m = Some m"
| "step (CALL a) m = None"
| "step (MOV64_MR src dst) m = Some (set_reg dst (hreg m src) m)"
| "step (MOV16_REG_IMM imm dst) m = Some (set_reg dst (set_low imm (hreg m dst)) m)"
| "step (MOV16_REG src dst) m =
     Some (set_reg dst (set_low (ucast (hreg m src) :: 16 word) (hreg m dst)) m)"
| "step (ADD16_REG_IMM imm dst) m =
     Some (set_reg dst (set_low ((ucast (hreg m dst) :: 16 word) + imm) (hreg m dst)) m)"
| "step (SHL32_REG_IMM n r) m =
     Some (set_reg r (ucast (push_bit (n mod 32) (ucast (hreg m r) :: 32 word))) m)"
| "step (MOV32_MI_MEM imm a) m = Some (write_mem (hreg m a) 4 imm m)"
| "step (MOV32_TO_MEM src a) m =
     Some (write_mem (hreg m a) 4 (ucast (hreg m src) :: 32 word) m)"
| "step (MOV64_OI imm dst) m = Some (set_reg dst imm m)"
| "step (load_addr a dst) m = Some (set_reg dst a m)"
| "step (MOV64_TO_MEM src a) m = Some (write_mem (hreg m a) 8 (hreg m src) m)"
| "step (MOV64_FROM_MEM a dst) m = Some (set_reg dst (load_bytes (mem m) (hreg m a) 8) m)"
| "step (MOVAPS_TO_MEM x a) m =
     (if aligned16 (hreg m a) then Some (write_mem (hreg m a) 16 (hxmm m x) m) else None)"
| "step (MOVAPS_FROM_MEM a x) m =
     (if aligned16 (hreg m a)
      then Some (m\<lparr>hxmm := (hxmm m)(x := load_bytes (mem m) (hreg m a) 16)\<rparr>)
      else None)"

fun exec :: "x64 list \<Rightarrow> machine \<Rightarrow> machine option" where
  "exec [] m = Some m"
| "exec (x # xs) m =
     (if x = RET then Some m
      else case step x m of None \<Rightarrow> None | Some m1 \<Rightarrow> exec xs m1)"

text \<open>
  A guest integer register is 16 bits wide (\<^verbatim>\<open>vu_set_int\<close> takes its value as a
  \<^verbatim>\<open>uint16_t\<close>): what it reads in memory is the two bytes at its address.
\<close>

definition int_gpr :: "VectorUnit \<Rightarrow> machine \<Rightarrow> int \<Rightarrow> 16 word" where
  "int_gpr vu m i = load_bytes (mem m) (int_gpr_addr vu i) 2"

text \<open>The code that a function emitted: what it added to the trace.\<close>

definition emitted :: "jit \<Rightarrow> jit \<Rightarrow> x64 list" where
  "emitted s s1 = code_of (drop (length (trace s)) (trace s1))"


subsection \<open>Concrete inputs\<close>

text \<open>
  A recompiler as constructed, before \<^verbatim>\<open>reset\<close>; a vector unit whose registers lie 16
  bytes apart; a machine with empty registers and memory; an instruction to start from.
\<close>

definition jit0 :: jit where
  "jit0 = \<lparr>int_regs = replicate 16 \<lparr>vu_reg = 0, used = False, locked = False, age = 0\<rparr>,
           xmm_regs = replicate 16 \<lparr>vu_reg = 0, used = False, locked = False, age = 0\<rparr>,
           abi_int_count = 0, abi_xmm_count = 0, trace = []\<rparr>"

definition vu0 :: VectorUnit where
  "vu0 = \<lparr>get_PC = 0, PC_addr = 0x1000,
          int_gpr_addr = (\<lambda>i. 0x2000 + 16 * word_of_int i),
          gpr_addr = (\<lambda>i. 0x3000 + 16 * word_of_int i)\<rparr>"

definition machine0 :: machine where
  "machine0 = \<lparr>hreg = (\<lambda>r. 0), hxmm = (\<lambda>r. 0), mem = (\<lambda>a. 0), stack = []\<rparr>"

definition instr0 :: Instruction where
  "instr0 = \<lparr>op = LoadConst, get_dest = 0, get_source = 0, get_source2 = 0,
             get_jump_dest = 0, get_return_addr = 0\<rparr>"

subsection \<open>The emitted code, piece by piece\<close>

text \<open>A later state whose trace is the trace of an earlier one with emitter calls added.\<close>

definition appends :: "jit \<Rightarrow> jit \<Rightarrow> bool" where
  "appends s s1 \<longleftrightarrow> trace s1 = trace s @ map Emit (emitted s s1)"


text \<open>
  What \<^verbatim>\<open>flush_regs\<close> does to one entry: an entry in use whose guest register is not
  register 0 is freed, and any other entry is left as it is.
\<close>

definition flushed :: "AllocReg \<Rightarrow> AllocReg" where
  "flushed r = (if used r \<and> vu_reg r \<noteq> 0 then r\<lparr>used := False\<rparr> else r)"

text \<open>
  A store of a host register to memory, through RAX as the allocators and \<^verbatim>\<open>flush_regs\<close>
  emit it: the address, and the register that is stored (a general-purpose register, 8
  bytes, or a vector register, 16 bytes). The bytes it writes, and where.
\<close>

datatype source = From_reg REG_64 | From_xmm REG_64

fun store_code :: "64 word \<times> source \<Rightarrow> x64 list" where
  "store_code (a, From_reg r) = [load_addr a RAX, MOV64_TO_MEM r RAX]"
| "store_code (a, From_xmm r) = [load_addr a RAX, MOVAPS_TO_MEM r RAX]"

fun width :: "source \<Rightarrow> nat" where
  "width (From_reg r) = 8"
| "width (From_xmm r) = 16"

fun byte_of :: "machine \<Rightarrow> source \<Rightarrow> nat \<Rightarrow> 8 word" where
  "byte_of m (From_reg r) k = ucast (drop_bit (8 * k) (hreg m r))"
| "byte_of m (From_xmm r) k = ucast (drop_bit (8 * k) (hxmm m r))"

fun do_store :: "64 word \<times> source \<Rightarrow> machine \<Rightarrow> machine" where
  "do_store (a, From_reg r) m = write_mem a 8 (hreg (set_reg RAX a m) r) (set_reg RAX a m)"
| "do_store (a, From_xmm r) m = write_mem a 16 (hxmm m r) (set_reg RAX a m)"

definition window :: "64 word \<times> source \<Rightarrow> 64 word list" where
  "window p = map (\<lambda>k. fst p + of_nat k) [0..<width (snd p)]"

text \<open>
  Stores that do not get in each other's way: two of them are the same store or write
  bytes that are apart, and a vector store is at an aligned address.
\<close>

fun aligned_store :: "64 word \<times> source \<Rightarrow> bool" where
  "aligned_store (a, From_reg r) = True"
| "aligned_store (a, From_xmm r) = aligned16 a"

definition apart :: "(64 word \<times> source) list \<Rightarrow> bool" where
  "apart sts \<longleftrightarrow>
     (\<forall>p\<in>set sts. \<forall>q\<in>set sts. p = q \<or> set (window p) \<inter> set (window q) = {}) \<and>
     (\<forall>p\<in>set sts. aligned_store p)"

text \<open>The stores of \<^verbatim>\<open>flush_regs\<close> for entry \<open>i\<close> of the two pools, and its code for a list of entries.\<close>

definition flush_stores :: "VectorUnit \<Rightarrow> jit \<Rightarrow> nat \<Rightarrow> (64 word \<times> source) list" where
  "flush_stores vu s i =
     (if used (xmm_regs s ! i) \<and> vu_reg (xmm_regs s ! i) \<noteq> 0
      then [(gpr_addr vu (vu_reg (xmm_regs s ! i)), From_xmm i)] else []) @
     (if used (int_regs s ! i) \<and> vu_reg (int_regs s ! i) \<noteq> 0
      then [(int_gpr_addr vu (vu_reg (int_regs s ! i)), From_reg i)] else [])"

definition flush_code :: "VectorUnit \<Rightarrow> jit \<Rightarrow> nat list \<Rightarrow> x64 list" where
  "flush_code vu s js = concat (map store_code (concat (map (flush_stores vu s) js)))"

section \<open>The allocators return a register or fail on the range check\<close>

lemma find_reg_mem: "find_reg rs v js = Some i \<Longrightarrow> i \<in> set js \<and> holds rs i v"
  by (induction js) (auto simp: holds_def split: if_splits)


lemma pick_int_mem: "pick_int rs js r a \<in> insert r (set js)"
  by (induction js arbitrary: r a) (auto split: if_splits)

lemma pick_sse_mem: "pick_sse rs js r a \<in> insert r (set js)"
  by (induction js arbitrary: r a) (auto split: if_splits)

lemma pick_int_lt: "pick_int rs [0..<16] 0 0 < 16"
  using pick_int_mem [of rs "[0..<16]" 0 0] by auto

lemma pick_sse_lt: "pick_sse rs [0..<16] 0 0 < 16"
  using pick_sse_mem [of rs "[0..<16]" 0 0] by auto

text \<open>
  C10. The two allocators check different ranges. \<^verbatim>\<open>alloc_int_reg\<close> is fatal for every
  guest register number from 16 on and \<^verbatim>\<open>alloc_sse_reg\<close> only from 32 on; below its
  bound each returns one of the sixteen host registers of its pool, whatever the state
  (so the numbers 0 to 15, and 0 to 31 for the vector pool, are all accepted).
\<close>

theorem alloc_ranges:
  "(16 \<le> vi \<longrightarrow> alloc_int_reg vu s vi l = Inl (Alloc_Int_error vi)) \<and>
   (vi < 16 \<longrightarrow> (\<exists>r s1. alloc_int_reg vu s vi l = Inr (r, s1) \<and> r < 16)) \<and>
   (32 \<le> vf \<longrightarrow> alloc_sse_reg vu s vf l = Inl (Alloc_SSE_error vf)) \<and>
   (vf < 32 \<longrightarrow> (\<exists>r s1. alloc_sse_reg vu s vf l = Inr (r, s1) \<and> r < 16))"
  using pick_int_lt pick_sse_lt
  by (auto simp: alloc_int_reg_def alloc_sse_reg_def Let_def split: option.splits dest!: find_reg_mem)

theorem alloc_ranges_witness:
  "alloc_int_reg vu0 (reset jit0) 16 True = Inl (Alloc_Int_error 16) \<and>
   (\<exists>r s1. alloc_sse_reg vu0 (reset jit0) 16 True = Inr (r, s1) \<and> r < 16)"
  using alloc_ranges [of 16 vu0 "reset jit0" True 16] by simp

section \<open>The choice of a register on a miss\<close>

lemma grow_older_length [simp]: "length (grow_older rs) = length rs"
  by (simp add: grow_older_def)

lemma grow_older_nth:
  "i < length rs \<Longrightarrow>
   grow_older rs ! i = (if used (rs ! i) then (rs ! i)\<lparr>age := age (rs ! i) + 1\<rparr> else rs ! i)"
  by (simp add: grow_older_def)

lemma grow_older_fields [simp]:
  "i < length rs \<Longrightarrow> used (grow_older rs ! i) = used (rs ! i)"
  "i < length rs \<Longrightarrow> locked (grow_older rs ! i) = locked (rs ! i)"
  "i < length rs \<Longrightarrow> vu_reg (grow_older rs ! i) = vu_reg (rs ! i)"
  "i < length rs \<Longrightarrow> age (grow_older rs ! i) = (if used (rs ! i) then age (rs ! i) + 1 else age (rs ! i))"
  by (simp_all add: grow_older_nth)

lemma pick_int_free:
  "sorted_wrt (<) js \<Longrightarrow> k \<in> set js \<Longrightarrow> \<not> locked (rs ! k) \<Longrightarrow> \<not> used (rs ! k) \<Longrightarrow>
   \<forall>j\<in>set js. j < k \<longrightarrow> locked (rs ! j) \<or> used (rs ! j) \<Longrightarrow>
   pick_int rs js r a = k"
  by (induction js arbitrary: r a) auto

lemma pick_sse_pick_int:
  "\<forall>j\<in>set js. \<not> locked (rs ! j) \<Longrightarrow> pick_sse rs js r a = pick_int rs js r a"
  by (induction js arbitrary: r a) auto

lemma pick_int_oldest:
  "sorted_wrt (<) js \<Longrightarrow> \<forall>j\<in>set js. \<not> locked (rs ! j) \<longrightarrow> used (rs ! j) \<Longrightarrow>
   (pick_int rs js r a = r \<and> (\<forall>j\<in>set js. \<not> locked (rs ! j) \<longrightarrow> age (rs ! j) \<le> a)) \<or>
   (pick_int rs js r a \<in> set js \<and> \<not> locked (rs ! pick_int rs js r a) \<and>
    a < age (rs ! pick_int rs js r a) \<and>
    (\<forall>j\<in>set js. \<not> locked (rs ! j) \<longrightarrow> age (rs ! j) \<le> age (rs ! pick_int rs js r a)) \<and>
    (\<forall>j\<in>set js. \<not> locked (rs ! j) \<and> j < pick_int rs js r a \<longrightarrow>
        age (rs ! j) < age (rs ! pick_int rs js r a)))"
proof (induction js arbitrary: r a)
  case Nil
  then show ?case by simp
next
  case (Cons i js)
  have s: "sorted_wrt (<) js" and u: "\<forall>j\<in>set js. \<not> locked (rs ! j) \<longrightarrow> used (rs ! j)"
    and lt: "\<forall>j\<in>set js. i < j"
    using Cons.prems by auto
  show ?case
  proof (cases "locked (rs ! i)")
    case True
    define p where "p = pick_int rs js r a"
    have e: "pick_int rs (i # js) r a = p" using True by (simp add: p_def)
    from Cons.IH [OF s u, of r a] show ?thesis
      unfolding e p_def [symmetric] using True by auto
  next
    case False
    then have ui: "used (rs ! i)" using Cons.prems by auto
    show ?thesis
    proof (cases "age (rs ! i) > a")
      case True
      define p where "p = pick_int rs js i (age (rs ! i))"
      have e: "pick_int rs (i # js) r a = p" using True False ui by (simp add: p_def)
      from Cons.IH [OF s u, of i "age (rs ! i)"]
      consider "p = i" "\<forall>j\<in>set js. \<not> locked (rs ! j) \<longrightarrow> age (rs ! j) \<le> age (rs ! i)"
        | "p \<in> set js" "\<not> locked (rs ! p)" "age (rs ! i) < age (rs ! p)"
          "\<forall>j\<in>set js. \<not> locked (rs ! j) \<longrightarrow> age (rs ! j) \<le> age (rs ! p)"
          "\<forall>j\<in>set js. \<not> locked (rs ! j) \<and> j < p \<longrightarrow> age (rs ! j) < age (rs ! p)"
        unfolding p_def [symmetric] by blast
      then show ?thesis
      proof cases
        case 1
        have "\<forall>j\<in>set (i # js). \<not> locked (rs ! j) \<and> j < p \<longrightarrow> age (rs ! j) < age (rs ! p)"
          using 1 lt by auto
        then show ?thesis unfolding e using 1 True False by simp
      next
        case 2
        then show ?thesis unfolding e using True by simp
      qed
    next
      case b: False
      define p where "p = pick_int rs js r a"
      have e: "pick_int rs (i # js) r a = p" using b False ui by (simp add: p_def)
      from Cons.IH [OF s u, of r a]
      consider "p = r" "\<forall>j\<in>set js. \<not> locked (rs ! j) \<longrightarrow> age (rs ! j) \<le> a"
        | "p \<in> set js" "\<not> locked (rs ! p)" "a < age (rs ! p)"
          "\<forall>j\<in>set js. \<not> locked (rs ! j) \<longrightarrow> age (rs ! j) \<le> age (rs ! p)"
          "\<forall>j\<in>set js. \<not> locked (rs ! j) \<and> j < p \<longrightarrow> age (rs ! j) < age (rs ! p)"
        unfolding p_def [symmetric] by blast
      then show ?thesis
      proof cases
        case 1
        then show ?thesis unfolding e using b by simp
      next
        case 2
        then show ?thesis unfolding e using b by simp
      qed
    qed
  qed
qed

section \<open>What a call of an allocator does\<close>

lemma emit_simps [simp]:
  "int_regs (emit x s) = int_regs s" "xmm_regs (emit x s) = xmm_regs s"
  "abi_int_count (emit x s) = abi_int_count s" "abi_xmm_count (emit x s) = abi_xmm_count s"
  "trace (emit x s) = trace s @ [Emit x]"
  by (simp_all add: emit_def)

lemma cache_call_simps [simp]:
  "int_regs (cache_call e s) = int_regs s" "xmm_regs (cache_call e s) = xmm_regs s"
  "abi_int_count (cache_call e s) = abi_int_count s" "abi_xmm_count (cache_call e s) = abi_xmm_count s"
  "trace (cache_call e s) = trace s @ [e]"
  by (simp_all add: cache_call_def)

lemma bind_reg_length [simp]: "length (bind_reg rs r v) = length rs"
  by (simp add: bind_reg_def)

lemma bind_reg_nth:
  "i < length rs \<Longrightarrow>
   bind_reg rs r v ! i = (if i = r then (rs ! r)\<lparr>vu_reg := v, used := True, age := 0\<rparr> else rs ! i)"
  by (simp add: bind_reg_def nth_list_update)

lemma alloc_int_hit:
  "vi < 16 \<Longrightarrow> find_reg (int_regs s) vi [0..<16] = Some i \<Longrightarrow> alloc_int_reg vu s vi l = Inr (i, s)"
  by (simp add: alloc_int_reg_def)

lemma alloc_sse_hit:
  "vf < 32 \<Longrightarrow> find_reg (xmm_regs s) vf [0..<16] = Some i \<Longrightarrow> alloc_sse_reg vu s vf l = Inr (i, s)"
  by (simp add: alloc_sse_reg_def)

lemma alloc_int_miss:
  assumes "vi < 16" "find_reg (int_regs s) vi [0..<16] = None" "length (int_regs s) = 16"
    and "r = pick_int (grow_older (int_regs s)) [0..<16] 0 0"
  shows "alloc_int_reg vu s vi l =
    Inr (r, s\<lparr>int_regs := bind_reg (grow_older (int_regs s)) r vi,
              trace := trace s @ map Emit
                ((if used (int_regs s ! r)
                  then [load_addr (int_gpr_addr vu (vu_reg (int_regs s ! r))) RAX, MOV64_TO_MEM r RAX]
                  else []) @
                 (if l then [load_addr (int_gpr_addr vu vi) RAX, MOV64_FROM_MEM RAX r] else []))\<rparr>)"
proof -
  have "r < 16" using assms(4) pick_int_lt by simp
  then show ?thesis
    using assms by (simp add: alloc_int_reg_def Let_def emit_def)
qed

lemma alloc_sse_miss:
  assumes "vf < 32" "find_reg (xmm_regs s) vf [0..<16] = None" "length (xmm_regs s) = 16"
    and "r = pick_sse (grow_older (xmm_regs s)) [0..<16] 0 0"
  shows "alloc_sse_reg vu s vf l =
    Inr (r, s\<lparr>xmm_regs := bind_reg (grow_older (xmm_regs s)) r vf,
              trace := trace s @ map Emit
                ((if used (xmm_regs s ! r)
                  then [load_addr (gpr_addr vu (vu_reg (xmm_regs s ! r))) RAX, MOVAPS_TO_MEM r RAX]
                  else []) @
                 (if l then [load_addr (gpr_addr vu vf) RAX, MOVAPS_FROM_MEM RAX r] else []))\<rparr>)"
proof -
  have "r < 16" using assms(4) pick_sse_lt by simp
  then show ?thesis
    using assms by (simp add: alloc_sse_reg_def Let_def emit_def)
qed

lemma sorted_upt16: "sorted_wrt (<) [0..<16]"
  by simp

text \<open>On a state that satisfies the invariant, what the third loop returns.\<close>

lemma pick_int_inv:
  assumes len: "length rs = 16"
    and free: "\<exists>i<16. \<not> locked (rs ! i)"
    and ages: "\<forall>i<16. 0 \<le> age (rs ! i)"
  defines "r \<equiv> pick_int (grow_older rs) [0..<16] 0 0"
  shows "r < 16 \<and> \<not> locked (rs ! r) \<and>
    (if \<exists>i<16. \<not> locked (rs ! i) \<and> \<not> used (rs ! i)
     then \<not> used (rs ! r) \<and> (\<forall>j<r. locked (rs ! j) \<or> used (rs ! j))
     else (\<forall>j<16. \<not> locked (rs ! j) \<longrightarrow> age (rs ! j) \<le> age (rs ! r)) \<and>
          (\<forall>j<r. \<not> locked (rs ! j) \<longrightarrow> age (rs ! j) < age (rs ! r)))"
proof (cases "\<exists>i<16. \<not> locked (rs ! i) \<and> \<not> used (rs ! i)")
  case True
  define k where "k = (LEAST i. i < 16 \<and> \<not> locked (rs ! i) \<and> \<not> used (rs ! i))"
  have k: "k < 16 \<and> \<not> locked (rs ! k) \<and> \<not> used (rs ! k)"
    unfolding k_def using True by (metis (mono_tags, lifting) LeastI)
  have least: "\<And>j. j < k \<Longrightarrow> \<not> (j < 16 \<and> \<not> locked (rs ! j) \<and> \<not> used (rs ! j))"
    unfolding k_def by (rule not_less_Least)
  have "pick_int (grow_older rs) [0..<16] 0 0 = k"
  proof (rule pick_int_free [OF sorted_upt16])
    show "k \<in> set [0..<16]" using k by simp
    show "\<not> locked (grow_older rs ! k)" "\<not> used (grow_older rs ! k)" using k len by simp_all
    show "\<forall>j\<in>set [0..<16]. j < k \<longrightarrow> locked (grow_older rs ! j) \<or> used (grow_older rs ! j)"
      using least len by auto
  qed
  then have "r = k" by (simp add: r_def)
  then show ?thesis using True k least by auto
next
  case False
  obtain f where f: "f < 16" "\<not> locked (rs ! f)" using free by blast
  have allused: "\<forall>j\<in>set [0..<16]. \<not> locked (grow_older rs ! j) \<longrightarrow> used (grow_older rs ! j)"
    using False len by auto
  have "age (grow_older rs ! f) > 0" using f False ages len by auto
  then have nofirst: "\<not> (\<forall>j\<in>set [0..<16]. \<not> locked (grow_older rs ! j) \<longrightarrow> age (grow_older rs ! j) \<le> 0)"
    using f len by force
  from pick_int_oldest [OF sorted_upt16 allused, of 0 0] nofirst
  have p: "r \<in> set [0..<16]" "\<not> locked (grow_older rs ! r)"
      "\<forall>j\<in>set [0..<16]. \<not> locked (grow_older rs ! j) \<longrightarrow> age (grow_older rs ! j) \<le> age (grow_older rs ! r)"
      "\<forall>j\<in>set [0..<16]. \<not> locked (grow_older rs ! j) \<and> j < r \<longrightarrow> age (grow_older rs ! j) < age (grow_older rs ! r)"
    unfolding r_def by blast+
  have r16: "r < 16" using p(1) by simp
  have rl: "\<not> locked (rs ! r)" using p(2) r16 len by simp
  have ru: "used (rs ! r)" using False r16 rl by blast
  have a: "\<forall>j<16. \<not> locked (rs ! j) \<longrightarrow> age (rs ! j) \<le> age (rs ! r)"
  proof (intro allI impI)
    fix j assume j: "j < 16" "\<not> locked (rs ! j)"
    then have "used (rs ! j)" using False by blast
    moreover have "age (grow_older rs ! j) \<le> age (grow_older rs ! r)" using p(3) j len by simp
    ultimately show "age (rs ! j) \<le> age (rs ! r)" using ru j r16 len by simp
  qed
  have b: "\<forall>j<r. \<not> locked (rs ! j) \<longrightarrow> age (rs ! j) < age (rs ! r)"
  proof (intro allI impI)
    fix j assume j: "j < r" "\<not> locked (rs ! j)"
    then have j16: "j < 16" using r16 by simp
    then have "used (rs ! j)" using False j by blast
    moreover have "age (grow_older rs ! j) < age (grow_older rs ! r)" using p(4) j j16 len by simp
    ultimately show "age (rs ! j) < age (rs ! r)" using ru j16 r16 len by simp
  qed
  show ?thesis using False r16 rl a b by auto
qed

section \<open>The invariant of the allocators\<close>

lemma code_of_Emit [simp]: "code_of (map Emit c) = c"
  by (induction c) auto

lemma emitted_append: "trace s1 = trace s @ map Emit c \<Longrightarrow> emitted s s1 = c"
  by (simp add: emitted_def)

lemma emitted_same [simp]: "emitted s s = []"
  by (simp add: emitted_def)

lemma find_reg_first:
  "sorted_wrt (<) js \<Longrightarrow> k \<in> set js \<Longrightarrow> holds rs k v \<Longrightarrow>
   \<forall>j\<in>set js. j < k \<longrightarrow> \<not> holds rs j v \<Longrightarrow> find_reg rs v js = Some k"
  by (induction js) (auto simp: holds_def)

lemma alloc_inv_reset: "alloc_inv (reset s)"
  by (auto simp: alloc_inv_def reset_def Let_def reset_reg_def RAX_def RSP_def nth_list_update)

lemma alloc_int_inv:
  assumes inv: "alloc_inv s" and a: "alloc_int_reg vu s vi l = Inr (r, s1)"
  shows "alloc_inv s1 \<and> r < 16 \<and> \<not> locked (int_regs s ! r) \<and> xmm_regs s1 = xmm_regs s \<and>
         (\<forall>i<16. locked (int_regs s ! i) \<longrightarrow> int_regs s1 ! i = int_regs s ! i) \<and>
         (\<forall>x\<in>set (emitted s s1). transfers x = None \<or> transfers x = Some r)"
proof -
  have vi: "vi < 16" using a by (auto simp: alloc_int_reg_def split: if_splits)
  have len: "length (int_regs s) = 16" using inv by (simp add: alloc_inv_def)
  show ?thesis
  proof (cases "find_reg (int_regs s) vi [0..<16]")
    case (Some i)
    then have e: "r = i" "s1 = s" using a alloc_int_hit [OF vi Some, of vu l] by auto
    have "i < 16" "used (int_regs s ! i)" using find_reg_mem [OF Some] by (auto simp: holds_def)
    then have "\<not> locked (int_regs s ! i)" using inv by (auto simp: alloc_inv_def)
    then show ?thesis using e inv \<open>i < 16\<close> by simp
  next
    case None
    define q where "q = pick_int (grow_older (int_regs s)) [0..<16] 0 0"
    have free: "\<exists>i<16. \<not> locked (int_regs s ! i)"
      using inv by (auto simp: alloc_inv_def RAX_def RSP_def intro!: exI [of _ 1])
    have ages: "\<forall>i<16. 0 \<le> age (int_regs s ! i)" using inv by (simp add: alloc_inv_def)
    have q: "q < 16" "\<not> locked (int_regs s ! q)"
      using pick_int_inv [OF len free ages] by (simp_all add: q_def)
    have e: "r = q" and s1: "s1 = s\<lparr>int_regs := bind_reg (grow_older (int_regs s)) q vi,
              trace := trace s @ map Emit
                ((if used (int_regs s ! q)
                  then [load_addr (int_gpr_addr vu (vu_reg (int_regs s ! q))) RAX, MOV64_TO_MEM q RAX]
                  else []) @
                 (if l then [load_addr (int_gpr_addr vu vi) RAX, MOV64_FROM_MEM RAX q] else []))\<rparr>"
      using a alloc_int_miss [OF vi None len q_def, of vu l] by auto
    have nth: "\<And>i. i < 16 \<Longrightarrow> int_regs s1 ! i =
        (if i = q then (grow_older (int_regs s) ! q)\<lparr>vu_reg := vi, used := True, age := 0\<rparr>
         else grow_older (int_regs s) ! i)"
      using len by (simp add: s1 bind_reg_nth)
    have i1: "alloc_inv s1"
      unfolding alloc_inv_def
    proof (intro conjI allI impI)
      show "length (int_regs s1) = 16" "length (xmm_regs s1) = 16"
        using inv by (simp_all add: s1 alloc_inv_def)
      fix i :: nat assume i: "i < 16"
      show "locked (int_regs s1 ! i) = (i = RAX \<or> i = RSP)"
        using inv i q len by (auto simp: nth alloc_inv_def)
      show "\<not> locked (xmm_regs s1 ! i)" using inv i by (simp add: s1 alloc_inv_def)
      show "0 \<le> age (int_regs s1 ! i)" using ages i len by (auto simp: nth)
      show "0 \<le> age (xmm_regs s1 ! i)" using inv i by (simp add: s1 alloc_inv_def)
      assume "locked (int_regs s1 ! i)"
      then show "\<not> used (int_regs s1 ! i)"
        using inv i q len by (auto simp: nth alloc_inv_def split: if_splits)
    qed
    have i2: "\<forall>i<16. locked (int_regs s ! i) \<longrightarrow> int_regs s1 ! i = int_regs s ! i"
      using inv q len by (auto simp: nth alloc_inv_def grow_older_nth)
    have tr: "trace s1 = trace s @ map Emit
                ((if used (int_regs s ! q)
                  then [load_addr (int_gpr_addr vu (vu_reg (int_regs s ! q))) RAX, MOV64_TO_MEM q RAX]
                  else []) @
                 (if l then [load_addr (int_gpr_addr vu vi) RAX, MOV64_FROM_MEM RAX q] else []))"
      by (simp add: s1)
    have i3: "\<forall>x\<in>set (emitted s s1). transfers x = None \<or> transfers x = Some r"
      unfolding emitted_append [OF tr] e by auto
    show ?thesis using i1 i2 i3 q e by (simp add: s1)
  qed
qed

lemma alloc_int_total: "vi < 16 \<Longrightarrow> \<exists>r s1. alloc_int_reg vu s vi l = Inr (r, s1)"
  by (auto simp: alloc_int_reg_def Let_def split: option.splits)

lemma alloc_sse_total: "vf < 32 \<Longrightarrow> \<exists>r s1. alloc_sse_reg vu s vf l = Inr (r, s1)"
  by (auto simp: alloc_sse_reg_def Let_def split: option.splits)

lemma pick_sse_inv:
  assumes len: "length rs = 16"
    and free: "\<forall>i<16. \<not> locked (rs ! i)"
    and ages: "\<forall>i<16. 0 \<le> age (rs ! i)"
  defines "r \<equiv> pick_sse (grow_older rs) [0..<16] 0 0"
  shows "r < 16 \<and> \<not> locked (rs ! r) \<and>
    (if \<exists>i<16. \<not> locked (rs ! i) \<and> \<not> used (rs ! i)
     then \<not> used (rs ! r) \<and> (\<forall>j<r. locked (rs ! j) \<or> used (rs ! j))
     else (\<forall>j<16. \<not> locked (rs ! j) \<longrightarrow> age (rs ! j) \<le> age (rs ! r)) \<and>
          (\<forall>j<r. \<not> locked (rs ! j) \<longrightarrow> age (rs ! j) < age (rs ! r)))"
proof -
  have "\<forall>j\<in>set [0..<16]. \<not> locked (grow_older rs ! j)" using free len by simp
  then have "r = pick_int (grow_older rs) [0..<16] 0 0"
    unfolding r_def by (rule pick_sse_pick_int)
  moreover have "\<exists>i<16. \<not> locked (rs ! i)" using free by (intro exI [of _ 0]) simp
  ultimately show ?thesis using pick_int_inv [OF len _ ages] by simp
qed

lemma alloc_sse_inv:
  assumes inv: "alloc_inv s" and a: "alloc_sse_reg vu s vf l = Inr (r, s1)"
  shows "alloc_inv s1 \<and> r < 16 \<and> \<not> locked (xmm_regs s ! r) \<and> int_regs s1 = int_regs s \<and>
         (\<forall>x\<in>set (emitted s s1). transfers x = None \<or> transfers x = Some r)"
proof -
  have vf: "vf < 32" using a by (auto simp: alloc_sse_reg_def split: if_splits)
  have len: "length (xmm_regs s) = 16" using inv by (simp add: alloc_inv_def)
  have free: "\<forall>i<16. \<not> locked (xmm_regs s ! i)" using inv by (simp add: alloc_inv_def)
  show ?thesis
  proof (cases "find_reg (xmm_regs s) vf [0..<16]")
    case (Some i)
    then have e: "r = i" "s1 = s" using a alloc_sse_hit [OF vf Some, of vu l] by auto
    have "i < 16" using find_reg_mem [OF Some] by auto
    then show ?thesis using e inv free by simp
  next
    case None
    define q where "q = pick_sse (grow_older (xmm_regs s)) [0..<16] 0 0"
    have ages: "\<forall>i<16. 0 \<le> age (xmm_regs s ! i)" using inv by (simp add: alloc_inv_def)
    have q: "q < 16" "\<not> locked (xmm_regs s ! q)"
      using pick_sse_inv [OF len free ages] by (simp_all add: q_def)
    have e: "r = q" and s1: "s1 = s\<lparr>xmm_regs := bind_reg (grow_older (xmm_regs s)) q vf,
              trace := trace s @ map Emit
                ((if used (xmm_regs s ! q)
                  then [load_addr (gpr_addr vu (vu_reg (xmm_regs s ! q))) RAX, MOVAPS_TO_MEM q RAX]
                  else []) @
                 (if l then [load_addr (gpr_addr vu vf) RAX, MOVAPS_FROM_MEM RAX q] else []))\<rparr>"
      using a alloc_sse_miss [OF vf None len q_def, of vu l] by auto
    have nth: "\<And>i. i < 16 \<Longrightarrow> xmm_regs s1 ! i =
        (if i = q then (grow_older (xmm_regs s) ! q)\<lparr>vu_reg := vf, used := True, age := 0\<rparr>
         else grow_older (xmm_regs s) ! i)"
      using len by (simp add: s1 bind_reg_nth)
    have i1: "alloc_inv s1"
      unfolding alloc_inv_def
    proof (intro conjI allI impI)
      show "length (int_regs s1) = 16" "length (xmm_regs s1) = 16"
        using inv by (simp_all add: s1 alloc_inv_def)
      fix i :: nat assume i: "i < 16"
      show "locked (int_regs s1 ! i) = (i = RAX \<or> i = RSP)"
        using inv i by (simp add: s1 alloc_inv_def)
      show "\<not> locked (xmm_regs s1 ! i)" using free i q len by (auto simp: nth)
      show "0 \<le> age (int_regs s1 ! i)" using inv i by (simp add: s1 alloc_inv_def)
      show "0 \<le> age (xmm_regs s1 ! i)" using ages i len by (auto simp: nth)
      assume "locked (int_regs s1 ! i)"
      then show "\<not> used (int_regs s1 ! i)"
        using inv i by (simp add: s1 alloc_inv_def)
    qed
    have tr: "trace s1 = trace s @ map Emit
                ((if used (xmm_regs s ! q)
                  then [load_addr (gpr_addr vu (vu_reg (xmm_regs s ! q))) RAX, MOVAPS_TO_MEM q RAX]
                  else []) @
                 (if l then [load_addr (gpr_addr vu vf) RAX, MOVAPS_FROM_MEM RAX q] else []))"
      by (simp add: s1)
    have i3: "\<forall>x\<in>set (emitted s s1). transfers x = None \<or> transfers x = Some r"
      unfolding emitted_append [OF tr] e by auto
    show ?thesis using i1 i3 q e by (simp add: s1)
  qed
qed

lemma acquire_inv:
  assumes inv: "alloc_inv s" and a: "acquire vu s p g l = Inr (r, s1)"
  shows "alloc_inv s1"
proof (cases p)
  case Int_pool
  then have "alloc_int_reg vu s g l = Inr (r, s1)" using a by (simp add: acquire_def)
  from alloc_int_inv [OF inv this] show ?thesis by blast
next
  case Vec_pool
  then have "alloc_sse_reg vu s g l = Inr (r, s1)" using a by (simp add: acquire_def)
  from alloc_sse_inv [OF inv this] show ?thesis by blast
qed

lemma acquire_all_Cons:
  "acquire_all vu s (c # rest) = Inr s1 \<Longrightarrow>
   \<exists>r s2. acquire vu s (fst c) (fst (snd c)) (snd (snd c)) = Inr (r, s2) \<and>
          acquire_all vu s2 rest = Inr s1"
  by (cases c) (simp split: sum.splits prod.splits)

lemma acquire_all_inv:
  "alloc_inv s \<Longrightarrow> acquire_all vu s calls = Inr s1 \<Longrightarrow> alloc_inv s1"
proof (induction calls arbitrary: s)
  case Nil
  then show ?case by simp
next
  case (Cons c calls)
  from acquire_all_Cons [OF Cons.prems(2)] obtain r s2 where
    a: "acquire vu s (fst c) (fst (snd c)) (snd (snd c)) = Inr (r, s2)"
    and rest: "acquire_all vu s2 calls = Inr s1"
    by blast
  from acquire_inv [OF Cons.prems(1) a] rest show ?case by (rule Cons.IH)
qed

text \<open>
  C4. After any sequence of calls of the allocators from the state that \<^verbatim>\<open>reset\<close> leaves,
  the locked entries are those of RAX and RSP in the integer pool and none in the vector
  pool, and a further call that returns: returns a register that is not locked; leaves
  every locked entry unused and as it was (it is never bound); and every spill and fill
  that it emits moves the register that it returns (never a locked one).
\<close>

theorem locked_never_allocated:
  assumes "acquire_all vu (reset s0) calls = Inr s" and "acquire vu s p g l = Inr (r, s1)"
  shows "r < 16 \<and> \<not> locked (pool_regs p s ! r) \<and>
         (\<forall>i<16. locked (int_regs s ! i) = (i = RAX \<or> i = RSP)) \<and>
         (\<forall>i<16. \<not> locked (xmm_regs s ! i)) \<and>
         (\<forall>i<16. locked (pool_regs p s ! i) \<longrightarrow>
              \<not> used (pool_regs p s1 ! i) \<and> pool_regs p s1 ! i = pool_regs p s ! i) \<and>
         (\<forall>x\<in>set (emitted s s1). transfers x = None \<or> transfers x = Some r)"
proof -
  have inv: "alloc_inv s" using alloc_inv_reset assms(1) by (rule acquire_all_inv)
  have li: "\<forall>i<16. locked (int_regs s ! i) = (i = RAX \<or> i = RSP)"
    and lx: "\<forall>i<16. \<not> locked (xmm_regs s ! i)"
    and lu: "\<forall>i<16. locked (int_regs s ! i) \<longrightarrow> \<not> used (int_regs s ! i)"
    using inv by (simp_all add: alloc_inv_def)
  show ?thesis
  proof (cases p)
    case Int_pool
    then have a: "alloc_int_reg vu s g l = Inr (r, s1)" using assms(2) by (simp add: acquire_def)
    have rs: "pool_regs p s = int_regs s" "pool_regs p s1 = int_regs s1"
      by (simp_all add: Int_pool pool_regs_def)
    from alloc_int_inv [OF inv a]
    have "r < 16" "\<not> locked (int_regs s ! r)"
      "\<forall>i<16. locked (int_regs s ! i) \<longrightarrow> int_regs s1 ! i = int_regs s ! i"
      "\<forall>x\<in>set (emitted s s1). transfers x = None \<or> transfers x = Some r"
      by blast+
    then show ?thesis unfolding rs using li lx lu by simp
  next
    case Vec_pool
    then have a: "alloc_sse_reg vu s g l = Inr (r, s1)" using assms(2) by (simp add: acquire_def)
    have rs: "pool_regs p s = xmm_regs s" "pool_regs p s1 = xmm_regs s1"
      by (simp_all add: Vec_pool pool_regs_def)
    from alloc_sse_inv [OF inv a]
    have "r < 16" "\<not> locked (xmm_regs s ! r)"
      "\<forall>x\<in>set (emitted s s1). transfers x = None \<or> transfers x = Some r"
      by blast+
    then show ?thesis unfolding rs using li lx by simp
  qed
qed

theorem locked_never_allocated_witness:
  "\<exists>s r s1. acquire_all vu0 (reset jit0) [(Int_pool, 1, True)] = Inr s \<and>
      acquire vu0 s Int_pool 2 False = Inr (r, s1) \<and> r < 16 \<and>
      \<not> locked (pool_regs Int_pool s ! r)"
proof -
  obtain r0 s where "alloc_int_reg vu0 (reset jit0) 1 True = Inr (r0, s)"
    using alloc_int_total [of 1 vu0 "reset jit0" True] by auto
  then have a: "acquire_all vu0 (reset jit0) [(Int_pool, 1, True)] = Inr s"
    by (simp add: acquire_def)
  obtain r s1 where "alloc_int_reg vu0 s 2 False = Inr (r, s1)"
    using alloc_int_total [of 2 vu0 s False] by auto
  then have b: "acquire vu0 s Int_pool 2 False = Inr (r, s1)"
    by (simp add: acquire_def)
  from locked_never_allocated [OF a b] a b show ?thesis by blast
qed

lemma reset_unused:
  "i < 16 \<Longrightarrow> \<not> used (int_regs (reset s) ! i)"
  "i < 16 \<Longrightarrow> \<not> used (xmm_regs (reset s) ! i)"
  by (simp_all add: reset_def Let_def reset_reg_def RAX_def RSP_def nth_list_update)




lemma one_holder_first:
  "one_holder rs n \<Longrightarrow> i < 16 \<Longrightarrow> holds rs i g \<Longrightarrow> \<forall>j<i. \<not> holds rs j g"
  unfolding one_holder_def holds_def
  by (metis less_trans nat_neq_iff)

text \<open>
  C6. When an entry of a pool holds guest register \<open>g\<close> (and \<open>g\<close> passes the range check of
  the pool), a call for \<open>g\<close> returns that entry and leaves the whole state of the recompiler
  as it was: no age, binding or flag of any entry changes and nothing is emitted, so the
  call can be repeated with the same result. The entry is the lowest one that holds \<open>g\<close>;
  where no two entries hold the same guest register, as in every state the allocators
  produce, it is the only one.
\<close>

theorem reacquire_hit:
  assumes "i < 16" and "holds (pool_regs p s) i g"
    and "(\<forall>j<i. \<not> holds (pool_regs p s) j g) \<or> one_holder (pool_regs p s) n"
    and "g < (case p of Int_pool \<Rightarrow> 16 | Vec_pool \<Rightarrow> 32)"
  shows "acquire vu s p g l = Inr (i, s) \<and>
         (\<forall>r s1. acquire vu s p g l = Inr (r, s1) \<longrightarrow> acquire vu s1 p g l = Inr (r, s1))"
proof -
  have first: "\<forall>j<i. \<not> holds (pool_regs p s) j g"
    using assms(3) one_holder_first [OF _ assms(1,2)] by blast
  have "find_reg (pool_regs p s) g [0..<16] = Some i"
    by (rule find_reg_first) (use assms(1,2) first in simp_all)
  then have "acquire vu s p g l = Inr (i, s)"
    using assms(4) by (cases p) (simp_all add: acquire_def pool_regs_def alloc_int_hit alloc_sse_hit)
  then show ?thesis by simp
qed

theorem reacquire_hit_witness:
  "\<exists>s. alloc_sse_reg vu0 (reset jit0) 31 True = Inr (0, s) \<and>
       acquire vu0 s Vec_pool 31 False = Inr (0, s)"
proof -
  define s where "s = snd (projr (alloc_sse_reg vu0 (reset jit0) 31 True))"
  have r: "fst (projr (alloc_sse_reg vu0 (reset jit0) 31 True)) = 0" by code_simp
  have a: "alloc_sse_reg vu0 (reset jit0) 31 True = Inr (0, s)"
    using alloc_sse_total [of 31 vu0 "reset jit0" True] r by (auto simp: s_def)
  have h: "holds (pool_regs Vec_pool s) 0 31"
    unfolding s_def holds_def pool_regs_def by code_simp
  have "acquire vu0 s Vec_pool 31 False = Inr (0, s)"
    using reacquire_hit [of 0 Vec_pool s 31 0 vu0 False] h by simp
  with a show ?thesis by blast
qed

section \<open>The ABI bridge\<close>

lemma prepare_abi_full:
  "6 \<le> abi_int_count s \<Longrightarrow> prepare_abi vu s v = Inl ABI_integer_arguments_exceeded"
  by (simp add: prepare_abi_def)

lemma prepare_abi_next:
  "abi_int_count s < 6 \<Longrightarrow>
   \<exists>s1. prepare_abi vu s v = Inr s1 \<and> abi_int_count s1 = Suc (abi_int_count s)"
  by (simp add: prepare_abi_def Let_def)

lemma abi_run_count:
  "n \<le> 6 \<Longrightarrow> abi_int_count s = n \<Longrightarrow> abi_run vu s calls = Inr s1 \<Longrightarrow>
   abi_int_count s1 = outstanding n calls \<and> outstanding n calls \<le> 6"
proof (induction n calls arbitrary: s rule: outstanding.induct)
  case (1 n)
  then show ?case by simp
next
  case (2 n v rest)
  show ?case
  proof (cases "n < 6")
    case True
    then obtain s2 where p: "prepare_abi vu s v = Inr s2" "abi_int_count s2 = Suc n"
      using prepare_abi_next [of s vu v] "2.prems"(2) by auto
    then have "abi_run vu s2 rest = Inr s1" using "2.prems"(3) by simp
    from "2.IH" [OF _ p(2) this] True show ?thesis by simp
  next
    case False
    then have "prepare_abi vu s v = Inl ABI_integer_arguments_exceeded"
      using prepare_abi_full "2.prems"(2) by simp
    then show ?thesis using "2.prems"(3) by simp
  qed
next
  case (3 n a rest)
  have "abi_int_count (call_abi_func s a) = 0" by (simp add: call_abi_func_def)
  from "3.IH" [OF _ this] "3.prems"(3) show ?case by simp
qed

lemma prepare_seven:
  "abi_int_count s = 0 \<Longrightarrow>
   (\<exists>s1. abi_run vu s (map Prepare vs) = Inr s1) = (length vs \<le> 6)"
proof -
  have "\<And>s n. abi_int_count s = n \<Longrightarrow>
     (\<exists>s1. abi_run vu s (map Prepare vs) = Inr s1) = (n + length vs \<le> 6 \<or> vs = [])"
  proof (induction vs)
    case Nil
    then show ?case by simp
  next
    case (Cons v vs)
    show ?case
    proof (cases "n < 6")
      case True
      then obtain s2 where p: "prepare_abi vu s v = Inr s2" "abi_int_count s2 = Suc n"
        using prepare_abi_next [of s vu v] Cons.prems by auto
      from Cons.IH [OF p(2)] p(1) True show ?thesis by auto
    next
      case False
      then have "prepare_abi vu s v = Inl ABI_integer_arguments_exceeded"
        using prepare_abi_full Cons.prems by simp
      then show ?thesis using False by simp
    qed
  qed
  then show "abi_int_count s = 0 \<Longrightarrow> ?thesis" by (cases vs) auto
qed

lemma reset_abi_count: "abi_int_count (reset s) = 0"
  by (simp add: reset_def Let_def)

text \<open>
  C5. After any sequence of calls of the ABI bridge from the state that \<^verbatim>\<open>reset\<close> leaves,
  the counter of integer arguments is the number of arguments prepared since the last call
  was issued, and it is at most 6. When it is 6 the next \<^verbatim>\<open>prepare_abi\<close> is fatal; below 6
  it succeeds and counts one more. \<^verbatim>\<open>call_abi_func\<close> puts the counter back to zero, and
  from there preparing a list of arguments succeeds exactly when the list has at most six:
  the seventh request is the fatal one.
\<close>

theorem abi_argument_limit:
  assumes "abi_run vu (reset s0) calls = Inr s"
  shows "abi_int_count s = outstanding 0 calls \<and> abi_int_count s \<le> 6 \<and>
         (abi_int_count s = 6 \<longrightarrow> prepare_abi vu s v = Inl ABI_integer_arguments_exceeded) \<and>
         (abi_int_count s < 6 \<longrightarrow>
            (\<exists>s1. prepare_abi vu s v = Inr s1 \<and> abi_int_count s1 = Suc (abi_int_count s))) \<and>
         abi_int_count (call_abi_func s a) = 0 \<and>
         ((\<exists>s1. abi_run vu (call_abi_func s a) (map Prepare vs) = Inr s1) = (length vs \<le> 6)) \<and>
         ((\<exists>s1. abi_run vu (reset s0) (map Prepare vs) = Inr s1) = (length vs \<le> 6))"
proof -
  have c: "abi_int_count s = outstanding 0 calls \<and> outstanding 0 calls \<le> 6"
    using abi_run_count [OF _ reset_abi_count assms] by simp
  have z: "abi_int_count (call_abi_func s a) = 0" by (simp add: call_abi_func_def)
  show ?thesis
    using c z prepare_abi_full [of s vu v] prepare_abi_next [of s vu v]
      prepare_seven [OF z, where vu = vu and vs = vs]
      prepare_seven [OF reset_abi_count [of s0], where vu = vu and vs = vs]
    by simp
qed

theorem abi_argument_limit_witness:
  "\<exists>s. abi_run vu0 (reset jit0) (map Prepare [1, 2, 3, 4, 5, 6]) = Inr s \<and>
       abi_int_count s = 6 \<and> prepare_abi vu0 s 7 = Inl ABI_integer_arguments_exceeded"
proof -
  have "\<exists>s. abi_run vu0 (reset jit0) (map Prepare [1, 2, 3, 4, 5, 6]) = Inr s"
    using prepare_seven [OF reset_abi_count [of jit0], where vu = vu0 and vs = "[1, 2, 3, 4, 5, 6]"]
    by simp
  then obtain s where s: "abi_run vu0 (reset jit0) (map Prepare [1, 2, 3, 4, 5, 6]) = Inr s" ..
  from abi_argument_limit [OF s, of 7] s show ?thesis by auto
qed

section \<open>What the handlers add to the trace\<close>

lemma appendsI: "trace s1 = trace s @ map Emit c \<Longrightarrow> appends s s1"
  by (simp add: appends_def emitted_append)

lemma appends_refl [simp]: "appends s s"
  by (simp add: appends_def)

lemma appends_trans:
  assumes "appends s s1" and "appends s1 s2"
  shows "appends s s2"
proof -
  have "trace s2 = trace s @ map Emit (emitted s s1 @ emitted s1 s2)"
    using assms by (simp add: appends_def)
  then show ?thesis by (rule appendsI)
qed


lemma appends_emit [simp]: "appends s s1 \<Longrightarrow> appends s (emit x s1)"
proof -
  assume "appends s s1"
  then have "trace (emit x s1) = trace s @ map Emit (emitted s s1 @ [x])"
    by (simp add: appends_def)
  then show "appends s (emit x s1)" by (rule appendsI)
qed

lemma appends_upd [simp]:
  "appends s (s1\<lparr>int_regs := a\<rparr>) = appends s s1"
  "appends s (s1\<lparr>xmm_regs := a\<rparr>) = appends s s1"
  "appends s (s1\<lparr>abi_int_count := n\<rparr>) = appends s s1"
  "appends s (s1\<lparr>abi_xmm_count := n\<rparr>) = appends s s1"
  by (simp_all add: appends_def emitted_def)


lemma emitted_upd [simp]:
  "emitted s (s1\<lparr>int_regs := a\<rparr>) = emitted s s1"
  "emitted s (s1\<lparr>xmm_regs := a\<rparr>) = emitted s s1"
  "emitted s (s1\<lparr>abi_int_count := n\<rparr>) = emitted s s1"
  "emitted s (s1\<lparr>abi_xmm_count := n\<rparr>) = emitted s s1"
  by (simp_all add: emitted_def)


lemma alloc_sse_appends: "alloc_sse_reg vu s vf l = Inr (r, s1) \<Longrightarrow> appends s s1"
  by (auto simp: alloc_sse_reg_def Let_def split: if_splits option.splits)










section \<open>The block compiler\<close>

lemma flush_step_appends: "appends s (flush_step vu j s)"
  by (simp add: flush_step_def flush_xmm_def flush_int_def Let_def)

lemma flush_fold_appends: "appends s (fold (flush_step vu) js s)"
proof (induction js arbitrary: s)
  case Nil
  then show ?case by simp
next
  case (Cons j js)
  have "appends s (flush_step vu j s)" by (rule flush_step_appends)
  then show ?case using Cons.IH [of "flush_step vu j s"] by (auto intro: appends_trans)
qed

lemma flush_regs_appends: "appends s (flush_regs vu s)"
  by (simp add: flush_regs_def flush_fold_appends)



lemma drain_append:
  "drain vu s (pre @ rest) =
     (case drain vu s pre of Inl e \<Rightarrow> Inl e | Inr s1 \<Rightarrow> drain vu s1 rest)"
  by (induction pre arbitrary: s) (auto split: sum.splits)

text \<open>
  C1 (as amended). The dispatcher treats \<^verbatim>\<open>VMulVectorByScalar\<close> as an instruction that
  needs no code: it returns with success and the state as it was (nothing emitted, no entry
  of either pool touched, no marker of any kind), and a block compiles exactly as it would
  without the instruction, wherever in the block the instruction stands.
\<close>

theorem vmul_is_skipped:
  "dispatch vu s (instr\<lparr>op := VMulVectorByScalar\<rparr>) = Inr s \<and>
   drain vu s (pre @ instr\<lparr>op := VMulVectorByScalar\<rparr> # rest) = drain vu s (pre @ rest) \<and>
   recompile_block vu s (block\<lparr>instructions := pre @ instr\<lparr>op := VMulVectorByScalar\<rparr> # rest\<rparr>) =
   recompile_block vu s (block\<lparr>instructions := pre @ rest\<rparr>)"
proof -
  have d: "dispatch vu s' (instr\<lparr>op := VMulVectorByScalar\<rparr>) = Inr s'" for s'
    by (simp add: dispatch_def)
  have e: "drain vu s' (pre @ instr\<lparr>op := VMulVectorByScalar\<rparr> # rest) = drain vu s' (pre @ rest)" for s'
    by (simp add: drain_append d split: sum.splits)
  show ?thesis using d e by (simp add: recompile_block_def epilogue_def split: sum.splits)
qed

theorem vmul_is_skipped_witness:
  "dispatch vu0 (reset jit0) (instr0\<lparr>op := VMulVectorByScalar\<rparr>) = Inr (reset jit0) \<and>
   recompile_block vu0 (reset jit0)
     \<lparr>instructions = [instr0\<lparr>op := VMulVectorByScalar\<rparr>], get_cycle_count = 1\<rparr> =
   recompile_block vu0 (reset jit0) \<lparr>instructions = [], get_cycle_count = 1\<rparr>"
  using vmul_is_skipped [of vu0 "reset jit0" instr0 "[]" "[]"
          "\<lparr>instructions = [], get_cycle_count = 1\<rparr>"]
  by simp

text \<open>
  The claim as stated fails: a block that holds only a \<^verbatim>\<open>VMulVectorByScalar\<close> compiles
  with success, to the very result of compiling the empty block.
\<close>

theorem vmul_unsupported_counterexample:
  "\<exists>s b. recompile_block vu0 (reset jit0)
            \<lparr>instructions = [instr0\<lparr>op := VMulVectorByScalar\<rparr>], get_cycle_count = 1\<rparr> = Inr (s, b) \<and>
         recompile_block vu0 (reset jit0) \<lparr>instructions = [], get_cycle_count = 1\<rparr> = Inr (s, b)"
  by (simp add: recompile_block_def dispatch_def epilogue_def)

section \<open>What flush\_regs does to the entries, and the code it emits\<close>

lemma flush_step_fields:
  "int_regs (flush_step vu j s) = (int_regs s)[j := flushed (int_regs s ! j)]"
  "xmm_regs (flush_step vu j s) = (xmm_regs s)[j := flushed (xmm_regs s ! j)]"
  "trace (flush_step vu j s) = trace s @ map Emit (concat (map store_code (flush_stores vu s j)))"
  "abi_int_count (flush_step vu j s) = abi_int_count s"
  "abi_xmm_count (flush_step vu j s) = abi_xmm_count s"
  by (auto simp: flush_step_def flush_xmm_def flush_int_def Let_def flushed_def flush_stores_def)

lemma flush_stores_cong:
  "int_regs s1 ! k = int_regs s ! k \<Longrightarrow> xmm_regs s1 ! k = xmm_regs s ! k \<Longrightarrow>
   flush_stores vu s1 k = flush_stores vu s k"
  by (simp add: flush_stores_def)

lemma flush_fold:
  "distinct js \<Longrightarrow>
   length (int_regs (fold (flush_step vu) js s)) = length (int_regs s) \<and>
   length (xmm_regs (fold (flush_step vu) js s)) = length (xmm_regs s) \<and>
   (\<forall>k. k \<notin> set js \<longrightarrow> int_regs (fold (flush_step vu) js s) ! k = int_regs s ! k \<and>
                        xmm_regs (fold (flush_step vu) js s) ! k = xmm_regs s ! k) \<and>
   (\<forall>k\<in>set js. k < length (int_regs s) \<longrightarrow>
        int_regs (fold (flush_step vu) js s) ! k = flushed (int_regs s ! k)) \<and>
   (\<forall>k\<in>set js. k < length (xmm_regs s) \<longrightarrow>
        xmm_regs (fold (flush_step vu) js s) ! k = flushed (xmm_regs s ! k)) \<and>
   trace (fold (flush_step vu) js s) = trace s @ map Emit (flush_code vu s js) \<and>
   abi_int_count (fold (flush_step vu) js s) = abi_int_count s \<and>
   abi_xmm_count (fold (flush_step vu) js s) = abi_xmm_count s"
proof (induction js arbitrary: s)
  case Nil
  then show ?case by (simp add: flush_code_def)
next
  case (Cons j js)
  define s2 where "s2 = flush_step vu j s"
  define F where "F = fold (flush_step vu) js s2"
  have d: "distinct js" and nj: "j \<notin> set js" using Cons.prems by auto
  have f: "fold (flush_step vu) (j # js) s = F" by (simp add: s2_def F_def)
  from Cons.IH [OF d, of s2] have
    il: "length (int_regs F) = length (int_regs s2)"
    and xl: "length (xmm_regs F) = length (xmm_regs s2)"
    and io: "\<And>k. k \<notin> set js \<Longrightarrow> int_regs F ! k = int_regs s2 ! k"
    and xo: "\<And>k. k \<notin> set js \<Longrightarrow> xmm_regs F ! k = xmm_regs s2 ! k"
    and ii: "\<And>k. k \<in> set js \<Longrightarrow> k < length (int_regs s2) \<Longrightarrow> int_regs F ! k = flushed (int_regs s2 ! k)"
    and xi: "\<And>k. k \<in> set js \<Longrightarrow> k < length (xmm_regs s2) \<Longrightarrow> xmm_regs F ! k = flushed (xmm_regs s2 ! k)"
    and tr: "trace F = trace s2 @ map Emit (flush_code vu s2 js)"
    and ab: "abi_int_count F = abi_int_count s2" "abi_xmm_count F = abi_xmm_count s2"
    unfolding F_def by blast+
  have i2: "int_regs s2 = (int_regs s)[j := flushed (int_regs s ! j)]"
    and x2: "xmm_regs s2 = (xmm_regs s)[j := flushed (xmm_regs s ! j)]"
    and t2: "trace s2 = trace s @ map Emit (concat (map store_code (flush_stores vu s j)))"
    and a2: "abi_int_count s2 = abi_int_count s" "abi_xmm_count s2 = abi_xmm_count s"
    by (simp_all add: s2_def flush_step_fields)
  have l2: "length (int_regs s2) = length (int_regs s)" "length (xmm_regs s2) = length (xmm_regs s)"
    by (simp_all add: i2 x2)
  have same: "int_regs s2 ! k = int_regs s ! k" "xmm_regs s2 ! k = xmm_regs s ! k" if "k \<noteq> j" for k
    using that by (simp_all add: i2 x2)
  have atj: "j < length (int_regs s) \<Longrightarrow> int_regs s2 ! j = flushed (int_regs s ! j)"
    "j < length (xmm_regs s) \<Longrightarrow> xmm_regs s2 ! j = flushed (xmm_regs s ! j)"
    by (simp_all add: i2 x2)
  have "\<forall>k\<in>set js. flush_stores vu s2 k = flush_stores vu s k"
  proof
    fix k assume "k \<in> set js"
    then have "k \<noteq> j" using nj by auto
    from same [OF this] show "flush_stores vu s2 k = flush_stores vu s k"
      by (intro flush_stores_cong) simp_all
  qed
  then have me: "map (flush_stores vu s2) js = map (flush_stores vu s) js" by simp
  have c: "flush_code vu s (j # js) =
      concat (map store_code (flush_stores vu s j)) @ flush_code vu s2 js"
    by (simp add: flush_code_def me)
  have g1: "length (int_regs F) = length (int_regs s)" "length (xmm_regs F) = length (xmm_regs s)"
    using il xl l2 by simp_all
  have g2: "\<forall>k. k \<notin> set (j # js) \<longrightarrow> int_regs F ! k = int_regs s ! k \<and> xmm_regs F ! k = xmm_regs s ! k"
    using io xo same by simp
  have g3: "\<forall>k\<in>set (j # js). k < length (int_regs s) \<longrightarrow> int_regs F ! k = flushed (int_regs s ! k)"
  proof (intro ballI impI)
    fix k assume k: "k \<in> set (j # js)" "k < length (int_regs s)"
    show "int_regs F ! k = flushed (int_regs s ! k)"
    proof (cases "k = j")
      case True
      then show ?thesis using io [OF nj] atj(1) k by simp
    next
      case False
      then have "k \<in> set js" using k by simp
      then show ?thesis using ii [of k] k l2 same(1) [OF False] by simp
    qed
  qed
  have g4: "\<forall>k\<in>set (j # js). k < length (xmm_regs s) \<longrightarrow> xmm_regs F ! k = flushed (xmm_regs s ! k)"
  proof (intro ballI impI)
    fix k assume k: "k \<in> set (j # js)" "k < length (xmm_regs s)"
    show "xmm_regs F ! k = flushed (xmm_regs s ! k)"
    proof (cases "k = j")
      case True
      then show ?thesis using xo [OF nj] atj(2) k by simp
    next
      case False
      then have "k \<in> set js" using k by simp
      then show ?thesis using xi [of k] k l2 same(2) [OF False] by simp
    qed
  qed
  have g5: "trace F = trace s @ map Emit (flush_code vu s (j # js))"
    by (simp add: tr t2 c)
  have g6: "abi_int_count F = abi_int_count s" "abi_xmm_count F = abi_xmm_count s"
    using ab a2 by simp_all
  show ?case unfolding f using g1 g2 g3 g4 g5 g6 by (intro conjI)
qed

lemma flush_regs_fields:
  assumes "length (int_regs s) = 16" "length (xmm_regs s) = 16"
  shows "int_regs (flush_regs vu s) = map flushed (int_regs s)"
    and "xmm_regs (flush_regs vu s) = map flushed (xmm_regs s)"
    and "trace (flush_regs vu s) = trace s @ map Emit (flush_code vu s [0..<16])"
    and "emitted s (flush_regs vu s) = flush_code vu s [0..<16]"
    and "abi_int_count (flush_regs vu s) = abi_int_count s"
proof -
  have d: "distinct [0..<16]" by simp
  from flush_fold [OF d, of vu s, folded flush_regs_def] have
    il: "length (int_regs (flush_regs vu s)) = length (int_regs s)"
    and xl: "length (xmm_regs (flush_regs vu s)) = length (xmm_regs s)"
    and ii: "\<And>k. k \<in> set [0..<16] \<Longrightarrow> k < length (int_regs s) \<Longrightarrow>
               int_regs (flush_regs vu s) ! k = flushed (int_regs s ! k)"
    and xi: "\<And>k. k \<in> set [0..<16] \<Longrightarrow> k < length (xmm_regs s) \<Longrightarrow>
               xmm_regs (flush_regs vu s) ! k = flushed (xmm_regs s ! k)"
    and t: "trace (flush_regs vu s) = trace s @ map Emit (flush_code vu s [0..<16])"
    and ab: "abi_int_count (flush_regs vu s) = abi_int_count s"
    by blast+
  show "int_regs (flush_regs vu s) = map flushed (int_regs s)"
  proof (rule nth_equalityI)
    show "length (int_regs (flush_regs vu s)) = length (map flushed (int_regs s))" using il by simp
    fix k assume "k < length (int_regs (flush_regs vu s))"
    then have "k < 16" using il assms by simp
    then show "int_regs (flush_regs vu s) ! k = map flushed (int_regs s) ! k"
      using ii [of k] assms by simp
  qed
  show "xmm_regs (flush_regs vu s) = map flushed (xmm_regs s)"
  proof (rule nth_equalityI)
    show "length (xmm_regs (flush_regs vu s)) = length (map flushed (xmm_regs s))" using xl by simp
    fix k assume "k < length (xmm_regs (flush_regs vu s))"
    then have "k < 16" using xl assms by simp
    then show "xmm_regs (flush_regs vu s) ! k = map flushed (xmm_regs s) ! k"
      using xi [of k] assms by simp
  qed
  show "trace (flush_regs vu s) = trace s @ map Emit (flush_code vu s [0..<16])" by (rule t)
  then show "emitted s (flush_regs vu s) = flush_code vu s [0..<16]" by (rule emitted_append)
  show "abi_int_count (flush_regs vu s) = abi_int_count s" by (rule ab)
qed

lemma flush_stores_mem:
  "p \<in> set (flush_stores vu s i) \<longleftrightarrow>
     (used (xmm_regs s ! i) \<and> vu_reg (xmm_regs s ! i) \<noteq> 0 \<and>
      p = (gpr_addr vu (vu_reg (xmm_regs s ! i)), From_xmm i)) \<or>
     (used (int_regs s ! i) \<and> vu_reg (int_regs s ! i) \<noteq> 0 \<and>
      p = (int_gpr_addr vu (vu_reg (int_regs s ! i)), From_reg i))"
  by (auto simp: flush_stores_def)

lemma flush_all_mem:
  "p \<in> set (concat (map (flush_stores vu s) [0..<16])) \<longleftrightarrow>
     (\<exists>i<16. p \<in> set (flush_stores vu s i))"
  by (simp only: set_concat set_map set_upt) auto

lemma used_flushed: "used (flushed r) = (used r \<and> vu_reg r = 0)"
  by (auto simp: flushed_def)

section \<open>Registers and bytes\<close>

lemma ucast_set_low:
  "LENGTH('a::len) \<le> LENGTH('b::len) \<Longrightarrow> ucast (set_low (v :: 'a word) (w :: 'b word)) = v"
  unfolding set_low_def
  by (rule bit_word_eqI) (auto simp: bit_simps)


lemma bit_load_bytes:
  "bit (load_bytes f a n :: 'a::len word) i \<longleftrightarrow>
     i < LENGTH('a) \<and> i < 8 * n \<and> bit (f (a + of_nat (i div 8))) (i mod 8)"
proof (induction n arbitrary: a i)
  case 0
  then show ?case by simp
next
  case (Suc n)
  have L: "bit (load_bytes f a (Suc n) :: 'a word) i \<longleftrightarrow>
      i < LENGTH('a) \<and> (bit (f a) i \<or> (8 \<le> i \<and> bit (load_bytes f (a + 1) n :: 'a word) (i - 8)))"
    by (auto simp: bit_simps dest: bit_imp_le_length)
  show ?case
  proof (cases "i < 8")
    case True
    then show ?thesis unfolding L by simp
  next
    case False
    then have d: "i div 8 = Suc ((i - 8) div 8)" "i mod 8 = (i - 8) mod 8"
      by (simp_all add: le_div_geq le_mod_geq)
    have e: "a + of_nat (i div 8) = a + 1 + of_nat ((i - 8) div 8)"
      by (simp add: d(1))
    have nb: "\<not> bit (f a) i" using False by (auto dest: bit_imp_le_length)
    have "bit (load_bytes f a (Suc n) :: 'a word) i \<longleftrightarrow>
        i < LENGTH('a) \<and> bit (load_bytes f (a + 1) n :: 'a word) (i - 8)"
      unfolding L using False nb by simp
    also have "\<dots> \<longleftrightarrow> i < LENGTH('a) \<and> i - 8 < LENGTH('a) \<and> i - 8 < 8 * n \<and>
        bit (f (a + 1 + of_nat ((i - 8) div 8))) ((i - 8) mod 8)"
      by (simp only: Suc.IH)
    also have "\<dots> \<longleftrightarrow> i < LENGTH('a) \<and> i < 8 * Suc n \<and>
        bit (f (a + of_nat (i div 8))) (i mod 8)"
      unfolding e d(2) using False by auto
    finally show ?thesis .
  qed
qed

lemma store_bytes_other:
  "(\<forall>k<n. b \<noteq> a + of_nat k) \<Longrightarrow> store_bytes f a n v b = f b"
proof (induction n arbitrary: f a v)
  case 0
  then show ?case by simp
next
  case (Suc n)
  have "\<forall>k<n. b \<noteq> a + 1 + of_nat k"
  proof (intro allI impI)
    fix k assume "k < n"
    then have "b \<noteq> a + of_nat (Suc k)" using Suc.prems [rule_format, of "Suc k"] by simp
    then show "b \<noteq> a + 1 + of_nat k" by (simp add: add.assoc)
  qed
  moreover have "b \<noteq> a" using Suc.prems [rule_format, of 0] by simp
  ultimately show ?case by (simp add: Suc.IH)
qed

lemma of_nat_64_neq_0: "0 < k \<Longrightarrow> k < 2 ^ 64 \<Longrightarrow> (of_nat k :: 64 word) \<noteq> 0"
  by (simp add: word_of_nat_eq_0_iff dvd_def) (metis nat_dvd_not_less dvd_def)

lemma store_bytes_same:
  "k < n \<Longrightarrow> n < 2 ^ 64 \<Longrightarrow>
   store_bytes f a n (v :: 'a::len word) (a + of_nat k) = ucast (drop_bit (8 * k) v)"
proof (induction n arbitrary: f a v k)
  case 0
  then show ?case by simp
next
  case (Suc n)
  show ?case
  proof (cases k)
    case 0
    have "\<forall>j<n. a \<noteq> a + 1 + of_nat j"
    proof (intro allI impI)
      fix j assume "j < n"
      then have "(of_nat (Suc j) :: 64 word) \<noteq> 0" using Suc.prems(2) by (intro of_nat_64_neq_0) simp_all
      then show "a \<noteq> a + 1 + of_nat j" by (simp add: add.assoc)
    qed
    then have "store_bytes (f(a := ucast v)) (a + 1) n (drop_bit 8 v) a = (f(a := ucast v)) a"
      by (rule store_bytes_other)
    then show ?thesis by (simp add: 0)
  next
    case (Suc k')
    then have k': "k' < n" "n < 2 ^ 64" using Suc.prems by simp_all
    have eq: "a + of_nat (Suc k') = (a + 1) + of_nat k'" by simp
    have "store_bytes f a (Suc n) v (a + of_nat k) =
          store_bytes (f(a := ucast v)) (a + 1) n (drop_bit 8 v) ((a + 1) + of_nat k')"
      by (simp only: Suc eq store_bytes.simps)
    also have "\<dots> = ucast (drop_bit (8 * k') (drop_bit 8 v))"
      by (rule Suc.IH [OF k'])
    also have "\<dots> = ucast (drop_bit (8 * k) v)"
      by (simp add: Suc add.commute)
    finally show ?thesis .
  qed
qed

lemma load_store:
  assumes "n' \<le> n" "n < 2 ^ 64" "LENGTH('b::len) \<le> 8 * n'"
  shows "(load_bytes (store_bytes f a n (v :: 'a::len word)) a n' :: 'b word) = ucast v"
proof (rule bit_word_eqI)
  fix i assume i: "i < LENGTH('b)"
  then have "i div 8 < n" using assms by (simp add: less_mult_imp_div_less mult.commute)
  from store_bytes_same [OF this assms(2), of f a v]
  have "bit (store_bytes f a n v (a + of_nat (i div 8))) (i mod 8) = bit v i"
    by (simp add: bit_simps)
  then show "bit (load_bytes (store_bytes f a n v) a n' :: 'b word) i = bit (ucast v :: 'b word) i"
    using i assms(3) by (simp add: bit_load_bytes bit_simps)
qed


section \<open>Running code\<close>

lemma exec_append:
  "RET \<notin> set xs \<Longrightarrow>
   exec (xs @ ys) m = (case exec xs m of None \<Rightarrow> None | Some m1 \<Rightarrow> exec ys m1)"
  by (induction xs arbitrary: m) (auto split: option.splits)

lemma set_reg_simps [simp]:
  "hreg (set_reg r v m) = (hreg m)(r := v)" "hxmm (set_reg r v m) = hxmm m"
  "mem (set_reg r v m) = mem m" "stack (set_reg r v m) = stack m"
  by (simp_all add: set_reg_def)

lemma write_mem_simps [simp]:
  "hreg (write_mem a n v m) = hreg m" "hxmm (write_mem a n v m) = hxmm m"
  "mem (write_mem a n v m) = store_bytes (mem m) a n v" "stack (write_mem a n v m) = stack m"
  by (simp_all add: write_mem_def)








section \<open>Running stores\<close>

lemma aligned_store_iff:
  "aligned_store p \<longleftrightarrow> (\<forall>r. snd p = From_xmm r \<longrightarrow> aligned16 (fst p))"
  by (cases p rule: aligned_store.cases) simp_all

lemma apart_alt:
  "apart sts \<longleftrightarrow>
     (\<forall>p\<in>set sts. \<forall>q\<in>set sts. p = q \<or> set (window p) \<inter> set (window q) = {}) \<and>
     (\<forall>p\<in>set sts. \<forall>r. snd p = From_xmm r \<longrightarrow> aligned16 (fst p))"
  by (simp add: apart_def aligned_store_iff)

lemma window_mem: "b \<in> set (window p) \<longleftrightarrow> (\<exists>k<width (snd p). b = fst p + of_nat k)"
  by (auto simp: window_def)

lemma width_small: "width src < 2 ^ 64"
  by (cases src) simp_all

lemma exec_store_code:
  "(\<forall>r. src = From_xmm r \<longrightarrow> aligned16 a) \<Longrightarrow>
   exec (store_code (a, src) @ ys) m = exec ys (do_store (a, src) m)"
  by (cases src) simp_all

lemma do_store_frame:
  "hreg (do_store (a, src) m) = (hreg m)(RAX := a)"
  "hxmm (do_store (a, src) m) = hxmm m"
  "stack (do_store (a, src) m) = stack m"
  by (cases src; simp)+

lemma do_store_other:
  "b \<notin> set (window (a, src)) \<Longrightarrow> mem (do_store (a, src) m) b = mem m b"
  by (cases src) (simp_all add: window_mem store_bytes_other)

lemma do_store_same:
  "src \<noteq> From_reg RAX \<Longrightarrow> k < width src \<Longrightarrow>
   mem (do_store (a, src) m) (a + of_nat k) = byte_of m src k"
  by (cases src) (simp_all add: store_bytes_same)

lemma byte_of_frame:
  "src \<noteq> From_reg RAX \<Longrightarrow> (\<forall>r. r \<noteq> RAX \<longrightarrow> hreg m1 r = hreg m r) \<Longrightarrow> hxmm m1 = hxmm m \<Longrightarrow>
   byte_of m1 src k = byte_of m src k"
  by (cases src) simp_all

text \<open>
  Running a list of stores, none of them of RAX, that are apart: every register but RAX is
  as before, the bytes outside the stores are as before, and the bytes of each store are
  those of its register at the start.
\<close>

lemma exec_stores:
  assumes "\<forall>p\<in>set sts. snd p \<noteq> From_reg RAX" and "apart sts"
  shows "\<exists>m1. exec (concat (map store_code sts)) m = Some m1 \<and>
           (\<forall>r. r \<noteq> RAX \<longrightarrow> hreg m1 r = hreg m r) \<and> hxmm m1 = hxmm m \<and> stack m1 = stack m \<and>
           (\<forall>b. (\<forall>p\<in>set sts. b \<notin> set (window p)) \<longrightarrow> mem m1 b = mem m b) \<and>
           (\<forall>p\<in>set sts. \<forall>k<width (snd p). mem m1 (fst p + of_nat k) = byte_of m (snd p) k)"
  using assms
proof (induction sts arbitrary: m)
  case Nil
  then show ?case by simp
next
  case (Cons st sts)
  obtain a src where st: "st = (a, src)" by (cases st)
  define m0 where "m0 = do_store (a, src) m"
  have src: "src \<noteq> From_reg RAX" using Cons.prems(1) st by auto
  have al: "\<forall>r. src = From_xmm r \<longrightarrow> aligned16 a"
    using Cons.prems(2) st by (simp add: apart_alt)
  have dis: "\<And>p. p \<in> set sts \<Longrightarrow> p = st \<or> set (window st) \<inter> set (window p) = {}"
    using Cons.prems(2) by (auto simp: apart_alt)
  have p1: "\<forall>p\<in>set sts. snd p \<noteq> From_reg RAX" using Cons.prems(1) by simp
  have p2: "apart sts" using Cons.prems(2) by (simp add: apart_alt)
  have f0: "\<forall>r. r \<noteq> RAX \<longrightarrow> hreg m0 r = hreg m r" "hxmm m0 = hxmm m" "stack m0 = stack m"
    by (simp_all add: m0_def do_store_frame)
  from Cons.IH [OF p1 p2, of m0] obtain m1 where
    e: "exec (concat (map store_code sts)) m0 = Some m1"
    and h: "\<forall>r. r \<noteq> RAX \<longrightarrow> hreg m1 r = hreg m0 r" and x: "hxmm m1 = hxmm m0"
    and k: "stack m1 = stack m0"
    and f: "\<And>b. (\<forall>p\<in>set sts. b \<notin> set (window p)) \<Longrightarrow> mem m1 b = mem m0 b"
    and v: "\<And>p j. p \<in> set sts \<Longrightarrow> j < width (snd p) \<Longrightarrow>
              mem m1 (fst p + of_nat j) = byte_of m0 (snd p) j"
    by blast
  have e': "exec (concat (map store_code (st # sts))) m = Some m1"
    using e exec_store_code [OF al, of "concat (map store_code sts)" m]
    by (simp add: st m0_def del: store_code.simps do_store.simps)
  have h': "\<forall>r. r \<noteq> RAX \<longrightarrow> hreg m1 r = hreg m r" using h f0(1) by simp
  have x': "hxmm m1 = hxmm m" "stack m1 = stack m" using x k f0 by simp_all
  have f': "\<forall>b. (\<forall>p\<in>set (st # sts). b \<notin> set (window p)) \<longrightarrow> mem m1 b = mem m b"
  proof (intro allI impI)
    fix b assume b: "\<forall>p\<in>set (st # sts). b \<notin> set (window p)"
    then have "mem m1 b = mem m0 b" by (intro f) simp
    moreover have "mem m0 b = mem m b"
      using b unfolding m0_def by (intro do_store_other) (simp add: st)
    ultimately show "mem m1 b = mem m b" by simp
  qed
  have tail: "mem m1 (fst p + of_nat j) = byte_of m (snd p) j"
    if p: "p \<in> set sts" and j: "j < width (snd p)" for p j
  proof -
    have "snd p \<noteq> From_reg RAX" using p1 p by blast
    from byte_of_frame [OF this f0(1) f0(2)] v [OF p j] show ?thesis by simp
  qed
  have head: "mem m1 (fst st + of_nat j) = byte_of m (snd st) j" if j: "j < width (snd st)" for j
  proof (cases "st \<in> set sts")
    case True
    then show ?thesis using tail j by blast
  next
    case False
    have "\<forall>p\<in>set sts. fst st + of_nat j \<notin> set (window p)"
    proof
      fix p assume p: "p \<in> set sts"
      then have "p \<noteq> st" using False by blast
      then have d: "set (window st) \<inter> set (window p) = {}" using dis [OF p] by blast
      have "fst st + of_nat j \<in> set (window st)" using j by (auto simp: window_mem)
      then show "fst st + of_nat j \<notin> set (window p)" using d by blast
    qed
    then have "mem m1 (fst st + of_nat j) = mem m0 (fst st + of_nat j)" by (rule f)
    also have "\<dots> = byte_of m (snd st) j"
      using j src unfolding m0_def st by (simp add: do_store_same del: do_store.simps)
    finally show ?thesis .
  qed
  have vals: "\<forall>p\<in>set (st # sts). \<forall>j<width (snd p). mem m1 (fst p + of_nat j) = byte_of m (snd p) j"
    using head tail by auto
  show ?case using e' h' x' f' vals by blast
qed

lemma load_from_bytes:
  assumes "\<forall>k<n. f (a + of_nat k) = ucast (drop_bit (8 * k) (v :: 'a::len word))"
    and "LENGTH('b::len) \<le> 8 * n"
  shows "(load_bytes f a n :: 'b word) = ucast v"
proof (rule bit_word_eqI)
  fix i assume i: "i < LENGTH('b)"
  then have "i div 8 < n" using assms(2) by (simp add: less_mult_imp_div_less mult.commute)
  then have "bit (f (a + of_nat (i div 8))) (i mod 8) = bit v i"
    using assms(1) by (simp add: bit_simps)
  then show "bit (load_bytes f a n :: 'b word) i = bit (ucast v :: 'b word) i"
    using i assms(2) by (simp add: bit_load_bytes bit_simps)
qed

section \<open>What flushing does\<close>

text \<open>
  C2 (as amended). For every state with sixteen entries in each pool, \<^verbatim>\<open>flush_regs\<close>
  frees exactly the entries in use that hold a guest register other than register 0, and
  changes nothing else of any entry: afterwards an entry is in use if and only if it was
  in use and holds guest register 0. The code it emits is, entry by entry in the order of
  the indices (the vector entry before the integer one), a store of the host register of
  each entry that it frees to the address of the guest register that the entry held: 8
  bytes for an integer entry and 16 for a vector entry. In a state that satisfies the
  invariant of the allocators (so that the entry of RAX is not in use), and where these
  stores are apart (no two of them write the same byte unless they are the same store,
  and the vector ones are at aligned addresses), this code runs to its end, and then the
  memory of each guest register so stored holds the value that the host register of its
  entry had.
\<close>

theorem flush_effect:
  "(length (int_regs s) = 16 \<and> length (xmm_regs s) = 16 \<longrightarrow>
      int_regs (flush_regs vu s) = map flushed (int_regs s) \<and>
      xmm_regs (flush_regs vu s) = map flushed (xmm_regs s) \<and>
      (\<forall>i<16. used (int_regs (flush_regs vu s) ! i) =
                 (used (int_regs s ! i) \<and> vu_reg (int_regs s ! i) = 0)) \<and>
      (\<forall>i<16. used (xmm_regs (flush_regs vu s) ! i) =
                 (used (xmm_regs s ! i) \<and> vu_reg (xmm_regs s ! i) = 0)) \<and>
      emitted s (flush_regs vu s) = flush_code vu s [0..<16]) \<and>
   (alloc_inv s \<and> apart (concat (map (flush_stores vu s) [0..<16])) \<longrightarrow>
      (\<exists>m1. exec (emitted s (flush_regs vu s)) m = Some m1 \<and>
         (\<forall>i<16. used (int_regs s ! i) \<and> vu_reg (int_regs s ! i) \<noteq> 0 \<longrightarrow>
            load_bytes (mem m1) (int_gpr_addr vu (vu_reg (int_regs s ! i))) 8 = hreg m i \<and>
            int_gpr vu m1 (vu_reg (int_regs s ! i)) = ucast (hreg m i)) \<and>
         (\<forall>i<16. used (xmm_regs s ! i) \<and> vu_reg (xmm_regs s ! i) \<noteq> 0 \<longrightarrow>
            load_bytes (mem m1) (gpr_addr vu (vu_reg (xmm_regs s ! i))) 16 = hxmm m i)))"
proof (intro conjI impI)
  assume len: "length (int_regs s) = 16 \<and> length (xmm_regs s) = 16"
  then have l: "length (int_regs s) = 16" "length (xmm_regs s) = 16" by simp_all
  show i: "int_regs (flush_regs vu s) = map flushed (int_regs s)"
    and x: "xmm_regs (flush_regs vu s) = map flushed (xmm_regs s)"
    using flush_regs_fields(1,2) [OF l] by simp_all
  show "\<forall>i<16. used (int_regs (flush_regs vu s) ! i) =
                 (used (int_regs s ! i) \<and> vu_reg (int_regs s ! i) = 0)"
    using l by (simp add: i used_flushed)
  show "\<forall>i<16. used (xmm_regs (flush_regs vu s) ! i) =
                 (used (xmm_regs s ! i) \<and> vu_reg (xmm_regs s ! i) = 0)"
    using l by (simp add: x used_flushed)
  show "emitted s (flush_regs vu s) = flush_code vu s [0..<16]"
    by (rule flush_regs_fields(4) [OF l])
next
  assume a: "alloc_inv s \<and> apart (concat (map (flush_stores vu s) [0..<16]))"
  define sts where "sts = concat (map (flush_stores vu s) [0..<16])"
  have inv: "alloc_inv s" and ap: "apart sts" using a by (simp_all add: sts_def)
  have l: "length (int_regs s) = 16" "length (xmm_regs s) = 16"
    using inv by (simp_all add: alloc_inv_def)
  have rax: "\<not> used (int_regs s ! RAX)" using inv by (simp add: alloc_inv_def RAX_def)
  have c: "emitted s (flush_regs vu s) = concat (map store_code sts)"
    using flush_regs_fields(4) [OF l] by (simp only: flush_code_def sts_def)
  have nr: "\<forall>p\<in>set sts. snd p \<noteq> From_reg RAX"
  proof
    fix p assume "p \<in> set sts"
    then obtain i where i: "i < 16" "p \<in> set (flush_stores vu s i)"
      unfolding sts_def flush_all_mem by blast
    show "snd p \<noteq> From_reg RAX"
    proof
      assume e: "snd p = From_reg RAX"
      from i(2) have "i = RAX \<and> used (int_regs s ! i)"
        unfolding flush_stores_mem using e by auto
      then show False using rax by blast
    qed
  qed
  from exec_stores [OF nr ap, of m] obtain m1 where
    e: "exec (concat (map store_code sts)) m = Some m1"
    and v: "\<And>p k. p \<in> set sts \<Longrightarrow> k < width (snd p) \<Longrightarrow>
              mem m1 (fst p + of_nat k) = byte_of m (snd p) k"
    by blast
  have vi: "\<forall>i<16. used (int_regs s ! i) \<and> vu_reg (int_regs s ! i) \<noteq> 0 \<longrightarrow>
            load_bytes (mem m1) (int_gpr_addr vu (vu_reg (int_regs s ! i))) 8 = hreg m i \<and>
            int_gpr vu m1 (vu_reg (int_regs s ! i)) = ucast (hreg m i)"
  proof (intro allI impI)
    fix i :: nat assume i: "i < 16" and u: "used (int_regs s ! i) \<and> vu_reg (int_regs s ! i) \<noteq> 0"
    define A where "A = int_gpr_addr vu (vu_reg (int_regs s ! i))"
    have "(A, From_reg i) \<in> set (flush_stores vu s i)"
      unfolding flush_stores_mem A_def using u by simp
    then have p: "(A, From_reg i) \<in> set sts"
      unfolding sts_def flush_all_mem using i by blast
    have b: "\<forall>k<8. mem m1 (A + of_nat k) = ucast (drop_bit (8 * k) (hreg m i))"
      using v [OF p] by simp
    have "(load_bytes (mem m1) A 8 :: 64 word) = ucast (hreg m i)"
      by (rule load_from_bytes [OF b]) simp
    moreover have "(load_bytes (mem m1) A 2 :: 16 word) = ucast (hreg m i)"
      by (rule load_from_bytes) (use b in simp_all)
    ultimately show "load_bytes (mem m1) (int_gpr_addr vu (vu_reg (int_regs s ! i))) 8 = hreg m i \<and>
            int_gpr vu m1 (vu_reg (int_regs s ! i)) = ucast (hreg m i)"
      by (simp add: A_def int_gpr_def)
  qed
  have vx: "\<forall>i<16. used (xmm_regs s ! i) \<and> vu_reg (xmm_regs s ! i) \<noteq> 0 \<longrightarrow>
        load_bytes (mem m1) (gpr_addr vu (vu_reg (xmm_regs s ! i))) 16 = hxmm m i"
  proof (intro allI impI)
    fix i :: nat assume i: "i < 16" and u: "used (xmm_regs s ! i) \<and> vu_reg (xmm_regs s ! i) \<noteq> 0"
    define A where "A = gpr_addr vu (vu_reg (xmm_regs s ! i))"
    have "(A, From_xmm i) \<in> set (flush_stores vu s i)"
      unfolding flush_stores_mem A_def using u by simp
    then have p: "(A, From_xmm i) \<in> set sts"
      unfolding sts_def flush_all_mem using i by blast
    have b: "\<forall>k<16. mem m1 (A + of_nat k) = ucast (drop_bit (8 * k) (hxmm m i))"
      using v [OF p] by simp
    have "(load_bytes (mem m1) A 16 :: 128 word) = ucast (hxmm m i)"
      by (rule load_from_bytes [OF b]) simp
    then show "load_bytes (mem m1) (gpr_addr vu (vu_reg (xmm_regs s ! i))) 16 = hxmm m i"
      by (simp add: A_def)
  qed
  show "\<exists>m1. exec (emitted s (flush_regs vu s)) m = Some m1 \<and>
         (\<forall>i<16. used (int_regs s ! i) \<and> vu_reg (int_regs s ! i) \<noteq> 0 \<longrightarrow>
            load_bytes (mem m1) (int_gpr_addr vu (vu_reg (int_regs s ! i))) 8 = hreg m i \<and>
            int_gpr vu m1 (vu_reg (int_regs s ! i)) = ucast (hreg m i)) \<and>
         (\<forall>i<16. used (xmm_regs s ! i) \<and> vu_reg (xmm_regs s ! i) \<noteq> 0 \<longrightarrow>
            load_bytes (mem m1) (gpr_addr vu (vu_reg (xmm_regs s ! i))) 16 = hxmm m i)"
    unfolding c using e vi vx by blast
qed

theorem flush_effect_witness:
  "\<exists>s m1. alloc_int_reg vu0 (reset jit0) 5 True = Inr (RCX, s) \<and>
     exec (emitted s (flush_regs vu0 s)) (set_reg RCX 0x1234 machine0) = Some m1 \<and>
     emitted s (flush_regs vu0 s) = [load_addr 0x2050 RAX, MOV64_TO_MEM RCX RAX] \<and>
     int_gpr vu0 m1 5 = 0x1234 \<and>
     \<not> used (int_regs (flush_regs vu0 s) ! RCX)"
proof -
  define s where "s = snd (projr (alloc_int_reg vu0 (reset jit0) 5 True))"
  have r: "fst (projr (alloc_int_reg vu0 (reset jit0) 5 True)) = RCX" by code_simp
  have a: "alloc_int_reg vu0 (reset jit0) 5 True = Inr (RCX, s)"
    using alloc_int_total [of 5 vu0 "reset jit0" True] r by (auto simp: s_def)
  have inv: "alloc_inv s" using alloc_int_inv [OF alloc_inv_reset a] by blast
  have u: "used (int_regs s ! RCX)" "vu_reg (int_regs s ! RCX) = 5"
    unfolding s_def by code_simp+
  have sts: "concat (map (flush_stores vu0 s) [0..<16]) = [(0x2050, From_reg RCX)]"
    unfolding s_def by code_simp
  have ap: "apart (concat (map (flush_stores vu0 s) [0..<16]))"
    unfolding sts by (simp add: apart_alt)
  have l: "length (int_regs s) = 16 \<and> length (xmm_regs s) = 16"
    using inv by (simp add: alloc_inv_def)
  have rcx: "RCX < 16" "hreg (set_reg RCX 0x1234 machine0) RCX = 0x1234"
    by (simp_all add: RCX_def)
  from flush_effect [of s vu0 "set_reg RCX 0x1234 machine0"] inv ap l
  obtain m1 where e: "exec (emitted s (flush_regs vu0 s)) (set_reg RCX 0x1234 machine0) = Some m1"
    and v: "\<forall>i<16. used (int_regs s ! i) \<and> vu_reg (int_regs s ! i) \<noteq> 0 \<longrightarrow>
            load_bytes (mem m1) (int_gpr_addr vu0 (vu_reg (int_regs s ! i))) 8 =
              hreg (set_reg RCX 0x1234 machine0) i \<and>
            int_gpr vu0 m1 (vu_reg (int_regs s ! i)) = ucast (hreg (set_reg RCX 0x1234 machine0) i)"
    and f: "\<forall>i<16. used (int_regs (flush_regs vu0 s) ! i) =
                 (used (int_regs s ! i) \<and> vu_reg (int_regs s ! i) = 0)"
    and c: "emitted s (flush_regs vu0 s) = flush_code vu0 s [0..<16]"
    by blast
  have "int_gpr vu0 m1 (vu_reg (int_regs s ! RCX)) = ucast (hreg (set_reg RCX 0x1234 machine0) RCX)"
  proof -
    have "vu_reg (int_regs s ! RCX) \<noteq> 0" unfolding u(2) by simp
    then show ?thesis using v [rule_format, of RCX] rcx(1) u(1) by blast
  qed
  then have g: "int_gpr vu0 m1 5 = 0x1234" unfolding u(2) rcx(2) by simp
  have n: "\<not> used (int_regs (flush_regs vu0 s) ! RCX)"
    using f [rule_format, of RCX] rcx(1) u by simp
  have cc: "emitted s (flush_regs vu0 s) = [load_addr 0x2050 RAX, MOV64_TO_MEM RCX RAX]"
    unfolding c flush_code_def sts by simp
  show ?thesis using a e cc g n by blast
qed

text \<open>
  The claim as stated fails: after a call for guest register 0 from the state that
  \<^verbatim>\<open>reset\<close> leaves, \<^verbatim>\<open>flush_regs\<close> leaves the entry of RCX in use.
\<close>

theorem flush_all_unused_counterexample:
  "\<exists>s. alloc_int_reg vu0 (reset jit0) 0 True = Inr (RCX, s) \<and>
       used (int_regs (flush_regs vu0 s) ! RCX)"
proof -
  define s where "s = snd (projr (alloc_int_reg vu0 (reset jit0) 0 True))"
  have r: "fst (projr (alloc_int_reg vu0 (reset jit0) 0 True)) = RCX" by code_simp
  have a: "alloc_int_reg vu0 (reset jit0) 0 True = Inr (RCX, s)"
    using alloc_int_total [of 0 vu0 "reset jit0" True] r by (auto simp: s_def)
  have "used (int_regs (flush_regs vu0 s) ! RCX)"
    unfolding s_def by code_simp
  with a show ?thesis by blast
qed

text \<open>
  Why the stores must be apart. On a vector unit whose integer registers lie 2 bytes
  apart, with RCX holding guest register 2 and RDX holding guest register 1, the flush
  stores the 8 bytes of RCX at guest register 2 and then the 8 bytes of RDX at guest
  register 1, over it: guest register 2 reads bits 16 to 31 of RDX afterwards.
\<close>

lemma flush_overlapping_stores:
  "case acquire_all (vu0\<lparr>int_gpr_addr := (\<lambda>i. 0x2000 + 2 * word_of_int i)\<rparr>) (reset jit0)
          [(Int_pool, 2, False), (Int_pool, 1, False)] of
     Inl e \<Rightarrow> False
   | Inr s \<Rightarrow>
       emitted s (flush_regs (vu0\<lparr>int_gpr_addr := (\<lambda>i. 0x2000 + 2 * word_of_int i)\<rparr>) s) =
         [load_addr 0x2004 RAX, MOV64_TO_MEM RCX RAX, load_addr 0x2002 RAX, MOV64_TO_MEM RDX RAX] \<and>
       \<not> apart (concat (map (flush_stores (vu0\<lparr>int_gpr_addr := (\<lambda>i. 0x2000 + 2 * word_of_int i)\<rparr>) s) [0..<16])) \<and>
       (case exec (emitted s (flush_regs (vu0\<lparr>int_gpr_addr := (\<lambda>i. 0x2000 + 2 * word_of_int i)\<rparr>) s))
               (set_reg RCX 0x2222 (set_reg RDX 0x1111 machine0)) of
          None \<Rightarrow> False
        | Some m1 \<Rightarrow>
            int_gpr (vu0\<lparr>int_gpr_addr := (\<lambda>i. 0x2000 + 2 * word_of_int i)\<rparr>) m1 1 = 0x1111 \<and>
            int_gpr (vu0\<lparr>int_gpr_addr := (\<lambda>i. 0x2000 + 2 * word_of_int i)\<rparr>) m1 2 = 0)"
  by code_simp

section \<open>The order of compilation\<close>










section \<open>AddUnsignedImm on one register\<close>

text \<open>
  C7 (refuted at a destination that is also the source). A block made of the single
  instruction AddUnsignedImm with destination and source guest register 1 and immediate 1
  is compiled from the state that \<^verbatim>\<open>reset\<close> leaves. The first call of \<^verbatim>\<open>alloc_int_reg\<close> gives
  RCX to guest register 1 without loading it, the second call finds that entry and emits
  nothing, so that the code never reads guest register 1 from memory: it adds 1 to the low
  16 bits that RCX happens to hold and stores the result as guest register 1. On every
  machine guest register 1 reads afterwards the low 16 bits of RCX plus 1; on a machine
  with RCX zero and guest register 1 holding 5, it reads 1 and not 6.
\<close>

theorem add_unsigned_imm_same_register:
  "\<exists>s b. recompile_block vu0 (reset jit0)
            \<lparr>instructions = [instr0\<lparr>op := AddUnsignedImm, get_dest := 1, get_source := 1,
                                     get_source2 := 1\<rparr>],
             get_cycle_count = 7\<rparr> = Inr (s, b) \<and>
     emitted (reset jit0) s =
       [PUSH RBP, MOV64_MR RSP RBP,
        MOV16_REG RCX RCX, ADD16_REG_IMM 1 RCX,
        load_addr 0x2010 RAX, MOV64_TO_MEM RCX RAX,
        MOV16_REG_IMM 7 RAX, POP RBP, RET] \<and>
     (\<forall>m. \<exists>m1. exec (emitted (reset jit0) s) m = Some m1 \<and>
              int_gpr vu0 m1 1 = ucast (hreg m RCX) + 1) \<and>
     int_gpr vu0 (machine0\<lparr>mem := (\<lambda>a. if a = 0x2010 then 5 else 0)\<rparr>) 1 = 5 \<and>
     (\<exists>m1. exec (emitted (reset jit0) s) (machine0\<lparr>mem := (\<lambda>a. if a = 0x2010 then 5 else 0)\<rparr>) = Some m1 \<and>
           int_gpr vu0 m1 1 = 1 \<and> int_gpr vu0 m1 1 \<noteq> 5 + 1)"
proof -
  define blk where "blk = \<lparr>instructions = [instr0\<lparr>op := AddUnsignedImm, get_dest := 1, get_source := 1,
                                     get_source2 := 1\<rparr>], get_cycle_count = 7\<rparr>"
  define code where "code = [PUSH RBP, MOV64_MR RSP RBP,
        MOV16_REG RCX RCX, ADD16_REG_IMM 1 RCX,
        load_addr 0x2010 RAX, MOV64_TO_MEM RCX RAX,
        MOV16_REG_IMM 7 RAX, POP RBP, RET]"
  define m5 where "m5 = machine0\<lparr>mem := (\<lambda>a. if a = 0x2010 then 5 else 0)\<rparr>"
  have ok: "\<not> isl (recompile_block vu0 (reset jit0) blk)"
    unfolding blk_def by code_simp
  have em: "emitted (reset jit0) (fst (projr (recompile_block vu0 (reset jit0) blk))) = code"
    unfolding blk_def code_def by code_simp
  from ok obtain s b where r: "recompile_block vu0 (reset jit0) blk = Inr (s, b)"
    by (cases "recompile_block vu0 (reset jit0) blk") auto
  have e: "emitted (reset jit0) s = code" using em by (simp add: r)
  have a: "int_gpr_addr vu0 1 = 0x2010" by (simp add: vu0_def)
  have run: "\<exists>m1. exec code m = Some m1 \<and> int_gpr vu0 m1 1 = ucast (hreg m RCX) + 1" for m
  proof -
    define v where "v = set_low ((ucast (set_low (ucast (hreg m RCX) :: 16 word) (hreg m RCX)) :: 16 word) + 1)
                          (set_low (ucast (hreg m RCX) :: 16 word) (hreg m RCX))"
    have "\<exists>m1. exec code m = Some m1 \<and> mem m1 = store_bytes (mem m) 0x2010 8 v"
      unfolding code_def v_def
      by (simp add: RAX_def RCX_def RSP_def RBP_def)
    then obtain m1 where x: "exec code m = Some m1" and y: "mem m1 = store_bytes (mem m) 0x2010 8 v"
      by blast
    have "int_gpr vu0 m1 1 = ucast v"
      unfolding int_gpr_def a y by (rule load_store) simp_all
    also have "\<dots> = ucast (hreg m RCX) + 1"
      unfolding v_def by (simp add: ucast_set_low)
    finally show ?thesis using x by blast
  qed
  have five: "int_gpr vu0 m5 1 = 5"
    unfolding m5_def by code_simp
  have z: "(ucast (hreg m5 RCX) :: 16 word) + 1 = 1"
    by (simp add: m5_def machine0_def)
  from run [of m5] obtain m1 where x: "exec code m5 = Some m1" and y: "int_gpr vu0 m1 1 = 1"
    unfolding z by blast
  have "\<exists>m1. exec code m5 = Some m1 \<and> int_gpr vu0 m1 1 = 1 \<and> int_gpr vu0 m1 1 \<noteq> 5 + 1"
    using x y by simp
  then have last: "\<exists>m1. exec (emitted (reset jit0) s) m5 = Some m1 \<and>
      int_gpr vu0 m1 1 = 1 \<and> int_gpr vu0 m1 1 \<noteq> 5 + 1"
    unfolding e .
  have all: "\<forall>m. \<exists>m1. exec (emitted (reset jit0) s) m = Some m1 \<and>
              int_gpr vu0 m1 1 = ucast (hreg m RCX) + 1"
    unfolding e using run by blast
  have "recompile_block vu0 (reset jit0) blk = Inr (s, b) \<and>
     emitted (reset jit0) s = code \<and>
     (\<forall>m. \<exists>m1. exec (emitted (reset jit0) s) m = Some m1 \<and>
              int_gpr vu0 m1 1 = ucast (hreg m RCX) + 1) \<and>
     int_gpr vu0 m5 1 = 5 \<and>
     (\<exists>m1. exec (emitted (reset jit0) s) m5 = Some m1 \<and>
           int_gpr vu0 m1 1 = 1 \<and> int_gpr vu0 m1 1 \<noteq> 5 + 1)"
    using r e all five last by (intro conjI)
  then show ?thesis
    unfolding blk_def code_def m5_def by (intro exI)
qed

text \<open>
  With a destination other than the source, on the vector unit whose registers lie 16
  bytes apart: guest register 1 holds 1, and AddUnsignedImm with destination 2, source 1
  and immediate \<open>0xFFFF\<close> leaves guest register 2 reading 0.
\<close>

lemma add_unsigned_imm_wraps:
  "case recompile_block vu0 (reset jit0)
            \<lparr>instructions = [instr0\<lparr>op := AddUnsignedImm, get_dest := 2, get_source := 1,
                                     get_source2 := 0xFFFF\<rparr>],
             get_cycle_count = 7\<rparr> of
     Inl e \<Rightarrow> False
   | Inr (s, b) \<Rightarrow>
       emitted (reset jit0) s =
         [PUSH RBP, MOV64_MR RSP RBP,
          load_addr 0x2010 RAX, MOV64_FROM_MEM RAX RDX,
          MOV16_REG RDX RCX, ADD16_REG_IMM 0xFFFF RCX,
          load_addr 0x2020 RAX, MOV64_TO_MEM RCX RAX,
          load_addr 0x2010 RAX, MOV64_TO_MEM RDX RAX,
          MOV16_REG_IMM 7 RAX, POP RBP, RET] \<and>
       (case exec (emitted (reset jit0) s)
               (machine0\<lparr>mem := (\<lambda>a. if a = 0x2010 then 1 else if a = 0x2020 then 9 else 0)\<rparr>) of
          None \<Rightarrow> False
        | Some m1 \<Rightarrow> int_gpr vu0 m1 2 = 0 \<and> int_gpr vu0 m1 1 = 1)"
  by code_simp

section \<open>JumpIndirect and the flush\<close>










end
